theory Spec2Isabelle
  imports Main "HOL-Library.Sublist" "HOL-Library.AList"
begin

section \<open>Python strings\<close>

text \<open>
  A Python \<open>str\<close> is a sequence of Unicode code points, so a character is modelled by its
  code point (a natural number) and a string by a list of them.  \<open>str\<close> turns an ASCII
  literal into such a list.
\<close>

type_synonym pychar = nat
type_synonym pystr = "pychar list"

definition str :: "string \<Rightarrow> pystr" where
  "str s = map of_char s"

abbreviation TAB :: pychar where "TAB \<equiv> 9"
abbreviation LF :: pychar where "LF \<equiv> 10"
abbreviation CR :: pychar where "CR \<equiv> 13"
abbreviation SPC :: pychar where "SPC \<equiv> 32"
abbreviation BSL :: pychar where "BSL \<equiv> 92"

text \<open>
  \<open>str.isspace\<close> on one character: the code points CPython lists as whitespace
  (bidirectional class WS, B or S, or general category Zs).
\<close>

definition is_space :: "pychar \<Rightarrow> bool" where
  "is_space c \<longleftrightarrow>
     (9 \<le> c \<and> c \<le> 13) \<or> (28 \<le> c \<and> c \<le> 32) \<or> c = 133 \<or> c = 160 \<or> c = 5760 \<or>
     (8192 \<le> c \<and> c \<le> 8202) \<or> c = 8232 \<or> c = 8233 \<or> c = 8239 \<or> c = 8287 \<or> c = 12288"

text \<open>\<open>s.strip()\<close>: drop the whitespace at both ends.\<close>

definition py_strip :: "pystr \<Rightarrow> pystr" where
  "py_strip s = rev (dropWhile is_space (rev (dropWhile is_space s)))"

text \<open>
  \<open>s.split(sep)\<close> for a non-empty separator: scan from the left, cutting at every
  occurrence of \<open>sep\<close> that does not overlap the previous one.  \<open>cur\<close> is the chunk read so
  far.  (Python raises ValueError on an empty separator; the source only ever passes
  literal, non-empty separators, and the scan treats an empty one as never matching.)
\<close>

function split_from :: "pystr \<Rightarrow> pystr \<Rightarrow> pystr \<Rightarrow> pystr list" where
  "split_from sep cur [] = [cur]"
| "split_from sep cur (c # cs) =
     (if sep \<noteq> [] \<and> prefix sep (c # cs)
      then cur # split_from sep [] (drop (length sep) (c # cs))
      else split_from sep (cur @ [c]) cs)"
  by pat_completeness auto
termination
  by (relation "measure (\<lambda>(sep, cur, s). length s)") (auto simp: neq_Nil_conv)

definition py_split :: "pystr \<Rightarrow> pystr \<Rightarrow> pystr list" where
  "py_split sep s = split_from sep [] s"

text \<open>\<open>s.split(c, 1)\<close> for a one-character separator: cut at the first \<open>c\<close> only.\<close>

definition py_split1 :: "pychar \<Rightarrow> pystr \<Rightarrow> pystr list" where
  "py_split1 c s =
     (case dropWhile (\<lambda>x. x \<noteq> c) s of
        [] \<Rightarrow> [s]
      | _ # r \<Rightarrow> [takeWhile (\<lambda>x. x \<noteq> c) s, r])"

section \<open>Text normalization: \<open>clean_text\<close> (main.py)\<close>

text \<open>
  \<open>re.sub(r'\\n', ' ', text)\<close> and \<open>re.sub(r'\\t', '    ', text)\<close>: the pattern is the
  two-character literal backslash followed by \<open>c\<close>.  The regex engine scans from the left;
  at a match it emits the replacement and continues after the match.
\<close>

fun re_sub_escape :: "pychar \<Rightarrow> pystr \<Rightarrow> pystr \<Rightarrow> pystr" where
  "re_sub_escape c rep (a # b # r) =
     (if a = BSL \<and> b = c then rep @ re_sub_escape c rep r
      else a # re_sub_escape c rep (b # r))"
| "re_sub_escape c rep r = r"

text \<open>
  \<open>re.sub(r'\n+', '\n', text)\<close>: the pattern is one or more line feeds, matched greedily,
  so a match swallows the whole run and one line feed is written for it.
\<close>

function re_sub_newlines :: "pystr \<Rightarrow> pystr" where
  "re_sub_newlines [] = []"
| "re_sub_newlines (c # cs) =
     (if c = LF then LF # re_sub_newlines (dropWhile (\<lambda>x. x = LF) cs)
      else c # re_sub_newlines cs)"
  by pat_completeness auto
termination
  by (relation "measure length") (auto simp: length_dropWhile_le less_Suc_eq_le)

text \<open>\<open>text.replace('\r', '')\<close>: every carriage return is deleted.\<close>

definition remove_cr :: "pystr \<Rightarrow> pystr" where
  "remove_cr s = filter (\<lambda>c. c \<noteq> CR) s"

text \<open>
  \<open>clean_text\<close> on a \<open>str\<close> argument, the five statements in the order of the source.
\<close>

definition clean_text :: "pystr \<Rightarrow> pystr" where
  "clean_text text =
     (let text = re_sub_escape 110 [SPC] text;
          text = re_sub_escape 116 [SPC, SPC, SPC, SPC] text;
          text = re_sub_newlines text;
          text = remove_cr text
      in py_strip text)"

section \<open>Report documents\<close>

text \<open>
  A python-docx \<open>Document\<close> is built by a sequence of \<open>add_heading(text, level)\<close> and
  \<open>add_paragraph(text)\<close> calls and then saved; the model keeps that sequence.  The
  serialization done by \<open>document.save\<close> is outside the model.
\<close>

datatype block = Heading pystr nat | Paragraph pystr

type_synonym document = "block list"

datatype error = KeyError pystr | IndexError | ValidationError

section \<open>Free-text split mode: \<open>Codesystem.save_report\<close> (crew.py)\<close>

text \<open>
  \<open>Path(file_name).stem\<close> for a POSIX path: the components are the pieces between
  slashes, without the empty ones and the \<open>.\<close> ones; \<open>name\<close> is the last component, or
  the empty string when there is none; \<open>stem\<close> cuts the name at its last dot when that
  dot is neither the first nor the last character (pathlib up to Python 3.13).
\<close>

definition path_parts :: "pystr \<Rightarrow> pystr list" where
  "path_parts p = filter (\<lambda>x. x \<noteq> [] \<and> x \<noteq> [46]) (py_split [47] p)"

definition path_name :: "pystr \<Rightarrow> pystr" where
  "path_name p = (case rev (path_parts p) of [] \<Rightarrow> [] | x # _ \<Rightarrow> x)"

text \<open>\<open>name.rfind('.')\<close>: the index of the last dot, or \<open>-1\<close>.\<close>

definition rfind_dot :: "pystr \<Rightarrow> int" where
  "rfind_dot name =
     (if 46 \<in> set name
      then int (length name) - 1 - int (length (takeWhile (\<lambda>c. c \<noteq> 46) (rev name)))
      else - 1)"

definition path_stem :: "pystr \<Rightarrow> pystr" where
  "path_stem p =
     (let name = path_name p; i = rfind_dot name
      in if 0 < i \<and> i < int (length name) - 1 then take (nat i) name else name)"

text \<open>
  \<open>re.sub(r'[^\w\-_]', '_', base_name)\<close>: every character that is neither a word
  character, nor a hyphen, nor an underscore becomes an underscore.  \<open>\w\<close> is "alphanumeric
  or underscore"; which code points are alphanumeric is a table of the Python runtime,
  taken here as the parameter \<open>alnum\<close>.
\<close>

definition sanitize_name :: "(pychar \<Rightarrow> bool) \<Rightarrow> pystr \<Rightarrow> pystr" where
  "sanitize_name alnum base =
     map (\<lambda>c. if alnum c \<or> c = 95 \<or> c = 45 then c else 95) base"

text \<open>The alphanumeric characters of ASCII, for concrete runs.\<close>

definition ascii_alnum :: "pychar \<Rightarrow> bool" where
  "ascii_alnum c \<longleftrightarrow> (48 \<le> c \<and> c \<le> 57) \<or> (65 \<le> c \<and> c \<le> 90) \<or> (97 \<le> c \<and> c \<le> 122)"

text \<open>
  The file name chosen by \<open>save_report\<close>, relative to \<open>self.output_dir\<close>.  \<open>file_name\<close>
  is \<open>None\<close> or a string, and \<open>if file_name:\<close> holds for a non-empty string only.  The
  timestamp is what \<open>datetime.now().strftime("%Y%m%d_%H%M%S")\<close> returned.
\<close>

definition docx_name :: "(pychar \<Rightarrow> bool) \<Rightarrow> pystr \<Rightarrow> pystr option \<Rightarrow> pystr \<Rightarrow> pystr" where
  "docx_name alnum filename_base file_name timestamp =
     (case file_name of
        Some f \<Rightarrow>
          (if f \<noteq> []
           then (let base_name = path_stem f;
                     base_name = sanitize_name alnum base_name
                 in base_name @ str ''_analysis_'' @ timestamp @ str ''.docx'')
           else filename_base @ str ''_'' @ timestamp @ str ''.docx'')
      | None \<Rightarrow> filename_base @ str ''_'' @ timestamp @ str ''.docx'')"

text \<open>
  One chunk after the first: nothing when it is blank, otherwise a level-1 heading with
  its first line and, when there is a second piece, a paragraph with the remainder.
\<close>

definition section_blocks :: "pystr \<Rightarrow> document" where
  "section_blocks section =
     (if py_strip section \<noteq> []
      then (case py_split1 LF section of
              [] \<Rightarrow> []
            | [title] \<Rightarrow> [Heading title 1]
            | title # body # _ \<Rightarrow> [Heading title 1, Paragraph body])
      else [])"

text \<open>
  The document written by \<open>save_report\<close>.  \<open>sections[0]\<close> raises IndexError on an empty
  list.
\<close>

definition report_document :: "pystr \<Rightarrow> error + document" where
  "report_document content =
     (case py_split (str ''\<newline># '') content of
        [] \<Rightarrow> Inl IndexError
      | first # rest \<Rightarrow>
          Inr (Heading (str ''Code Analysis Report'') 0 # Paragraph first #
               concat (map section_blocks rest)))"

definition save_report ::
  "(pychar \<Rightarrow> bool) \<Rightarrow> pystr \<Rightarrow> pystr \<Rightarrow> pystr option \<Rightarrow> pystr \<Rightarrow> error + (pystr \<times> document)" where
  "save_report alnum content filename_base file_name timestamp =
     (case report_document content of
        Inl e \<Rightarrow> Inl e
      | Inr doc \<Rightarrow> Inr (docx_name alnum filename_base file_name timestamp, doc))"

section \<open>Structured mode: \<open>prepare_inputs\<close> and \<open>generate_docx_report\<close> (main.py)\<close>

text \<open>
  The values held by the input dictionaries are strings or \<open>None\<close>.  Neither has an
  attribute \<open>result\<close>, so the \<open>hasattr\<close> branch of \<open>generate_docx_report\<close> is not taken,
  and \<open>clean_text\<close> converts \<open>None\<close> with \<open>str\<close>.
\<close>

datatype pyval = PyNone | PyStr pystr

fun py_str :: "pyval \<Rightarrow> pystr" where
  "py_str PyNone = str ''None''"
| "py_str (PyStr s) = s"

type_synonym pydict = "pystr \<rightharpoonup> pyval"

text \<open>\<open>d.get(key, default)\<close>\<close>

definition dict_get :: "pydict \<Rightarrow> pystr \<Rightarrow> pyval \<Rightarrow> pyval" where
  "dict_get d k dflt = (case d k of None \<Rightarrow> dflt | Some v \<Rightarrow> v)"

definition no_output :: pyval where
  "no_output = PyStr (str ''No output available'')"

definition prepare_inputs :: "pystr \<Rightarrow> pyval \<Rightarrow> pydict \<Rightarrow> pydict" where
  "prepare_inputs file_path code_content agent_outputs =
     [str ''code_to_analyze'' \<mapsto> code_content,
      str ''file_name'' \<mapsto> PyStr file_path,
      str ''code_analysis_output'' \<mapsto> dict_get agent_outputs (str ''code_analysis_output'') no_output,
      str ''security_analysis_output'' \<mapsto>
         dict_get agent_outputs (str ''security_analysis_output'') no_output,
      str ''performance_analysis_output'' \<mapsto>
         dict_get agent_outputs (str ''performance_analysis_output'') no_output,
      str ''code_test_coverage'' \<mapsto> dict_get agent_outputs (str ''code_test_output'') no_output,
      str ''best_practices_output'' \<mapsto> dict_get agent_outputs (str ''best_practices_output'') no_output]"

text \<open>\<open>clean_text\<close> on a value: a non-string is converted with \<open>str\<close> first.\<close>

definition clean_value :: "pyval \<Rightarrow> pystr" where
  "clean_value v = clean_text (py_str v)"

definition generate_docx_report :: "pydict \<Rightarrow> document" where
  "generate_docx_report inputs =
     [Heading (str ''Generated Report'') 0,
      Paragraph (str ''File: '' @ py_str (dict_get inputs (str ''file_name'') PyNone)),
      Heading (str ''Code Analysis Output'') 1,
      Paragraph (clean_value (dict_get inputs (str ''code_analysis_output'') no_output)),
      Heading (str ''Security Analysis Output'') 1,
      Paragraph (clean_value (dict_get inputs (str ''security_analysis_output'') no_output)),
      Heading (str ''Performance Analysis Output'') 1,
      Paragraph (clean_value (dict_get inputs (str ''performance_analysis_output'') no_output)),
      Heading (str ''Architecture Analysis Output'') 1,
      Paragraph (clean_value (dict_get inputs (str ''code_test_output'') no_output)),
      Heading (str ''Best Practices Output'') 1,
      Paragraph (clean_value (dict_get inputs (str ''best_practices_output'') no_output))]"

section \<open>Task graph construction: \<open>Codesystem.crew\<close> (crew.py)\<close>

text \<open>
  The two configuration dictionaries come from YAML.  A Python dictionary keeps its keys
  in insertion order and holds each key once, so a dictionary that is iterated is an
  association list (\<open>AList.update\<close> overwrites in place or appends, as \<open>d[k] = v\<close> does).
  An entry of a configuration is itself a dictionary; each key the code reads is a field
  that may be missing.
\<close>

record agent_config =
  ac_role :: "pystr option"
  ac_goal :: "pystr option"
  ac_backstory :: "pystr option"

record task_config =
  tc_description :: "pystr option"
  tc_expected_output :: "pystr option"
  tc_agent :: "pystr option"
  tc_dependencies :: "pystr list option"

text \<open>
  \<open>Agent\<close>, \<open>Task\<close> and \<open>Crew\<close> are classes of the crewai library, which is not part of
  the repository.  An object is modelled by the arguments its constructor is given.  The
  constructors validate their arguments and raise ValidationError on two of the calls
  \<open>crew\<close> can make:
  \<^item> \<open>Task\<close> declares \<open>expected_output\<close> as a string that must be given, so
    \<open>Task(..., expected_output=None, ...)\<close> raises;
  \<^item> \<open>Crew\<close> requires agents or tasks (no \<open>config\<close> is passed), so
    \<open>Crew(agents=[], tasks=[], ...)\<close> raises.
  The strings read with a subscript (\<open>role\<close>, \<open>goal\<close>, \<open>backstory\<close>, \<open>description\<close>) pass
  validation as they are.
\<close>

datatype agent = Agent (role: pystr) (goal: pystr) (backstory: pystr) (agent_verbose: bool)

datatype task =
  Task (description: pystr) (expected_output: pystr) (task_agent: agent)
       (dependencies: "task list") (task_verbose: bool)

record crew_obj =
  crew_agents :: "agent list"
  crew_tasks :: "task list"
  crew_verbose :: bool

text \<open>\<open>Task(description=d, expected_output=e, agent=a, dependencies=deps, verbose=v)\<close>\<close>

definition new_task ::
  "pystr \<Rightarrow> pystr option \<Rightarrow> agent \<Rightarrow> task list \<Rightarrow> bool \<Rightarrow> error + task" where
  "new_task d e a deps v =
     (case e of None \<Rightarrow> Inl ValidationError | Some out \<Rightarrow> Inr (Task d out a deps v))"

text \<open>\<open>Crew(agents=agents, tasks=tasks, verbose=v)\<close>\<close>

definition new_crew :: "agent list \<Rightarrow> task list \<Rightarrow> bool \<Rightarrow> error + crew_obj" where
  "new_crew agents tasks v =
     (if agents = [] \<and> tasks = [] then Inl ValidationError
      else Inr \<lparr>crew_agents = agents, crew_tasks = tasks, crew_verbose = v\<rparr>)"

text \<open>\<open>d[key]\<close> on a configuration entry: KeyError when the key is missing.\<close>

definition subscript :: "pystr \<Rightarrow> 'a option \<Rightarrow> error + 'a" where
  "subscript key field = (case field of None \<Rightarrow> Inl (KeyError key) | Some v \<Rightarrow> Inr v)"

definition build_agent :: "agent_config \<Rightarrow> error + agent" where
  "build_agent agent_config =
     (case subscript (str ''role'') (ac_role agent_config) of
        Inl e \<Rightarrow> Inl e
      | Inr r \<Rightarrow>
     (case subscript (str ''goal'') (ac_goal agent_config) of
        Inl e \<Rightarrow> Inl e
      | Inr g \<Rightarrow>
     (case subscript (str ''backstory'') (ac_backstory agent_config) of
        Inl e \<Rightarrow> Inl e
      | Inr b \<Rightarrow> Inr (Agent r g b True))))"

text \<open>The first loop of \<open>crew\<close>; \<open>agents\<close> is the dictionary built so far.\<close>

fun build_agents ::
  "(pystr \<times> agent_config) list \<Rightarrow> (pystr \<times> agent) list \<Rightarrow> error + (pystr \<times> agent) list" where
  "build_agents [] agents = Inr agents"
| "build_agents ((agent_name, agent_config) # rest) agents =
     (case build_agent agent_config of
        Inl e \<Rightarrow> Inl e
      | Inr a \<Rightarrow> build_agents rest (AList.update agent_name a agents))"

text \<open>
  The inner loop over \<open>task_config['dependencies']\<close>: a name that is a key of
  \<open>task_outputs\<close> appends the task stored there, any other name is passed over.
\<close>

definition resolve_dependencies :: "task_config \<Rightarrow> (pystr \<times> task) list \<Rightarrow> task list" where
  "resolve_dependencies task_config task_outputs =
     (case tc_dependencies task_config of
        None \<Rightarrow> []
      | Some deps \<Rightarrow>
          fold (\<lambda>dep dependencies.
                  case map_of task_outputs dep of
                    None \<Rightarrow> dependencies
                  | Some t \<Rightarrow> dependencies @ [t])
               deps [])"

text \<open>
  The \<open>Task(...)\<close> call, its arguments evaluated from left to right:
  \<open>task_config['description']\<close>, \<open>task_config.get('expected_output', None)\<close>,
  then \<open>agents[task_config['agent']]\<close>; the constructor runs after them.
\<close>

definition build_task ::
  "(pystr \<times> agent) list \<Rightarrow> (pystr \<times> task) list \<Rightarrow> task_config \<Rightarrow> error + task" where
  "build_task agents task_outputs task_config =
     (let dependencies = resolve_dependencies task_config task_outputs
      in case subscript (str ''description'') (tc_description task_config) of
           Inl e \<Rightarrow> Inl e
         | Inr d \<Rightarrow>
        (case subscript (str ''agent'') (tc_agent task_config) of
           Inl e \<Rightarrow> Inl e
         | Inr n \<Rightarrow>
        (case subscript n (map_of agents n) of
           Inl e \<Rightarrow> Inl e
         | Inr a \<Rightarrow> new_task d (tc_expected_output task_config) a dependencies True)))"

text \<open>The second loop of \<open>crew\<close>, with the list \<open>tasks\<close> and the dictionary \<open>task_outputs\<close>.\<close>

fun build_tasks ::
  "(pystr \<times> agent) list \<Rightarrow> (pystr \<times> task_config) list \<Rightarrow> task list \<Rightarrow> (pystr \<times> task) list \<Rightarrow>
   error + (task list \<times> (pystr \<times> task) list)" where
  "build_tasks agents [] tasks task_outputs = Inr (tasks, task_outputs)"
| "build_tasks agents ((task_name, task_config) # rest) tasks task_outputs =
     (case build_task agents task_outputs task_config of
        Inl e \<Rightarrow> Inl e
      | Inr t \<Rightarrow> build_tasks agents rest (tasks @ [t]) (AList.update task_name t task_outputs))"

definition crew ::
  "(pystr \<times> agent_config) list \<Rightarrow> (pystr \<times> task_config) list \<Rightarrow>
   error + (crew_obj \<times> (pystr \<times> task) list)" where
  "crew agents_config tasks_config =
     (case build_agents agents_config [] of
        Inl e \<Rightarrow> Inl e
      | Inr agents \<Rightarrow>
     (case build_tasks agents tasks_config [] [] of
        Inl e \<Rightarrow> Inl e
      | Inr (tasks, task_outputs) \<Rightarrow>
          (case new_crew (map snd agents) tasks True of
             Inl e \<Rightarrow> Inl e
           | Inr c \<Rightarrow> Inr (c, task_outputs))))"

section \<open>Specification vocabulary\<close>

text \<open>
  The predicates below are not part of the program; the properties are stated with them.
  \<open>sublist [a, b] s\<close> says that \<open>a\<close> is immediately followed by \<open>b\<close> somewhere in \<open>s\<close>.
\<close>

text \<open>A string with no whitespace at either end.\<close>

definition trimmed :: "pystr \<Rightarrow> bool" where
  "trimmed s \<longleftrightarrow> s = [] \<or> (\<not> is_space (hd s) \<and> \<not> is_space (last s))"

text \<open>
  A string that holds no literal backslash-n or backslash-t, no two adjacent line feeds,
  no carriage return, and no whitespace at either end.
\<close>

definition normal_text :: "pystr \<Rightarrow> bool" where
  "normal_text s \<longleftrightarrow>
     \<not> sublist [BSL, 110] s \<and> \<not> sublist [BSL, 116] s \<and> \<not> sublist [LF, LF] s \<and>
     CR \<notin> set s \<and> trimmed s"

text \<open>
  \<open>f\<close> replaces each occurrence of \<open>pat\<close> by \<open>rep\<close>: an occurrence is rewritten and both
  sides are processed on their own, and a string without occurrence is left as it is.
  The two equations determine \<open>f\<close> on every string.
\<close>

definition replaces_each :: "pystr \<Rightarrow> pystr \<Rightarrow> (pystr \<Rightarrow> pystr) \<Rightarrow> bool" where
  "replaces_each pat rep f \<longleftrightarrow>
     (\<forall>u v. f (u @ pat @ v) = f u @ rep @ f v) \<and> (\<forall>u. \<not> sublist pat u \<longrightarrow> f u = u)"

text \<open>\<open>f\<close> collapses each run of two or more \<open>c\<close> into one \<open>c\<close>.\<close>

definition collapses_runs :: "pychar \<Rightarrow> (pystr \<Rightarrow> pystr) \<Rightarrow> bool" where
  "collapses_runs c f \<longleftrightarrow>
     (\<forall>u v. f (u @ [c, c] @ v) = f (u @ [c] @ v)) \<and> (\<forall>u. \<not> sublist [c, c] u \<longrightarrow> f u = u)"

text \<open>\<open>f\<close> deletes each \<open>c\<close>.\<close>

definition removes_each :: "pychar \<Rightarrow> (pystr \<Rightarrow> pystr) \<Rightarrow> bool" where
  "removes_each c f \<longleftrightarrow>
     (\<forall>u v. f (u @ [c] @ v) = f (u @ v)) \<and> (\<forall>u. c \<notin> set u \<longrightarrow> f u = u)"

text \<open>\<open>f\<close> removes the characters satisfying \<open>P\<close> from both ends.\<close>

definition trims :: "(pychar \<Rightarrow> bool) \<Rightarrow> (pystr \<Rightarrow> pystr) \<Rightarrow> bool" where
  "trims P f \<longleftrightarrow>
     (\<forall>c u. P c \<longrightarrow> f (c # u) = f u \<and> f (u @ [c]) = f u) \<and>
     (\<forall>u. u = [] \<or> (\<not> P (hd u) \<and> \<not> P (last u)) \<longrightarrow> f u = u)"

text \<open>
  The sections of a document: each level-1 heading with the paragraph that follows it
  (the empty string when none does).
\<close>

fun sections_of :: "document \<Rightarrow> (pystr \<times> pystr) list" where
  "sections_of [] = []"
| "sections_of (Paragraph b # r) = sections_of r"
| "sections_of (Heading t l # r) =
     (if l = 1 then (t, case r of Paragraph b # _ \<Rightarrow> b | _ \<Rightarrow> []) # sections_of r
      else sections_of r)"

text \<open>The keys \<open>generate_docx_report\<close> reads for its five sections, in order.\<close>

definition category_keys :: "pystr list" where
  "category_keys =
     [str ''code_analysis_output'', str ''security_analysis_output'',
      str ''performance_analysis_output'', str ''code_test_output'',
      str ''best_practices_output'']"

text \<open>\<open>sep.join(chunks)\<close>\<close>

fun py_join :: "pystr \<Rightarrow> pystr list \<Rightarrow> pystr" where
  "py_join sep [] = []"
| "py_join sep [x] = x"
| "py_join sep (x # y # r) = x @ sep @ py_join sep (y # r)"

text \<open>An agent entry that holds the three keys \<open>crew\<close> reads, and the agent built from it.\<close>

definition complete_agent :: "agent_config \<Rightarrow> bool" where
  "complete_agent c \<longleftrightarrow> ac_role c \<noteq> None \<and> ac_goal c \<noteq> None \<and> ac_backstory c \<noteq> None"

definition agent_of :: "agent_config \<Rightarrow> agent" where
  "agent_of c = Agent (the (ac_role c)) (the (ac_goal c)) (the (ac_backstory c)) True"

text \<open>
  A task entry that holds the two keys \<open>crew\<close> reads with a subscript, and an expected
  output.
\<close>

definition complete_task :: "task_config \<Rightarrow> bool" where
  "complete_task t \<longleftrightarrow>
     tc_description t \<noteq> None \<and> tc_agent t \<noteq> None \<and> tc_expected_output t \<noteq> None"

text \<open>The agent name of a task is a key of the agent configuration.\<close>

definition resolves :: "(pystr \<times> agent_config) list \<Rightarrow> task_config \<Rightarrow> bool" where
  "resolves acs t \<longleftrightarrow> (case tc_agent t of None \<Rightarrow> False | Some a \<Rightarrow> a \<in> fst ` set acs)"

text \<open>Every task names an agent of the agent configuration.\<close>

definition all_resolve :: "(pystr \<times> agent_config) list \<Rightarrow> (pystr \<times> task_config) list \<Rightarrow> bool" where
  "all_resolve acs tcs \<longleftrightarrow> (\<forall>t\<in>snd ` set tcs. resolves acs t)"

text \<open>
  The configuration the build is specified for: both dictionaries hold each key once (as
  every Python dictionary does), they are not both empty, every entry holds the keys
  that are read with a subscript, and every task has an expected output.
\<close>

definition well_formed ::
  "(pystr \<times> agent_config) list \<Rightarrow> (pystr \<times> task_config) list \<Rightarrow> bool" where
  "well_formed acs tcs \<longleftrightarrow>
     distinct (map fst acs) \<and> distinct (map fst tcs) \<and> (acs \<noteq> [] \<or> tcs \<noteq> []) \<and>
     (\<forall>c\<in>snd ` set acs. complete_agent c) \<and> (\<forall>t\<in>snd ` set tcs. complete_task t)"



text \<open>
  A configuration of three tasks for concrete runs: \<open>B\<close> names \<open>C\<close>, which is declared
  after it, and \<open>Z\<close>, which is not declared at all.  In the second task list \<open>B\<close> names
  \<open>C\<close>, which is not declared, and an agent that does not exist.  In the third \<open>A\<close> has no \<open>expected_output\<close> entry as
  well.  In the fourth the only task has no \<open>expected_output\<close> entry.
\<close>

definition demo_agents_config :: "(pystr \<times> agent_config) list" where
  "demo_agents_config =
     [(str ''analyst'',
       \<lparr>ac_role = Some (str ''r''), ac_goal = Some (str ''g''), ac_backstory = Some (str ''s'')\<rparr>)]"

definition demo_task :: "string \<Rightarrow> string \<Rightarrow> pystr list option \<Rightarrow> task_config" where
  "demo_task d a deps =
     \<lparr>tc_description = Some (str d), tc_expected_output = Some (str ''text''),
      tc_agent = Some (str a), tc_dependencies = deps\<rparr>"

definition demo_tasks_config :: "(pystr \<times> task_config) list" where
  "demo_tasks_config =
     [(str ''A'', demo_task ''a'' ''analyst'' None),
      (str ''B'', demo_task ''b'' ''analyst'' (Some [str ''C'', str ''A'', str ''Z''])),
      (str ''C'', demo_task ''c'' ''analyst'' (Some [str ''A'', str ''B'']))]"

definition broken_tasks_config :: "(pystr \<times> task_config) list" where
  "broken_tasks_config =
     [(str ''A'', demo_task ''a'' ''analyst'' None),
      (str ''B'', demo_task ''b'' ''nobody'' (Some [str ''C'', str ''A'']))]"

definition mixed_tasks_config :: "(pystr \<times> task_config) list" where
  "mixed_tasks_config =
     [(str ''A'',
       \<lparr>tc_description = Some (str ''a''), tc_expected_output = None,
        tc_agent = Some (str ''analyst''), tc_dependencies = None\<rparr>),
      (str ''B'', demo_task ''b'' ''nobody'' (Some [str ''A'']))]"

definition bare_tasks_config :: "(pystr \<times> task_config) list" where
  "bare_tasks_config =
     [(str ''A'',
       \<lparr>tc_description = Some (str ''a''), tc_expected_output = None,
        tc_agent = Some (str ''analyst''), tc_dependencies = Some [str ''B'']\<rparr>)]"

section \<open>Properties of text normalization\<close>

subsection \<open>Adjacent pairs\<close>

lemma sublist2_Nil [simp]: "\<not> sublist [a, b] []"
  by simp

lemma sublist2_single [simp]: "\<not> sublist [a, b] [x]"
  by (simp add: sublist_Cons_right)

lemma sublist2_Cons [simp]:
  "sublist [a, b] (x # y # r) \<longleftrightarrow> (x = a \<and> y = b) \<or> sublist [a, b] (y # r)"
  by (auto simp: sublist_Cons_right [of _ x])

lemma sublist2_tl: "\<not> sublist [a, b] (x # r) \<Longrightarrow> \<not> sublist [a, b] r"
  by (cases r) auto

lemma sublist2_append:
  "sublist [a, b] (u @ v) \<longleftrightarrow>
     sublist [a, b] u \<or> sublist [a, b] v \<or> (u \<noteq> [] \<and> v \<noteq> [] \<and> last u = a \<and> hd v = b)"
proof (induction u rule: induct_list012)
  case 1
  show ?case by simp
next
  case (2 x)
  show ?case by (cases v) auto
next
  case (3 x y zs)
  then show ?case by auto
qed

subsection \<open>re_sub_escape\<close>

lemma re_sub_escape_id: "\<not> sublist [BSL, c] s \<Longrightarrow> re_sub_escape c rep s = s"
  by (induction c rep s rule: re_sub_escape.induct) auto

lemma re_sub_escape_match:
  "c \<noteq> BSL \<Longrightarrow> re_sub_escape c rep (u @ BSL # c # v) = re_sub_escape c rep u @ rep @ re_sub_escape c rep v"
proof (induction u rule: induct_list012)
  case 1
  show ?case by simp
next
  case (2 x)
  then show ?case by simp
next
  case (3 x y zs)
  then show ?case by simp
qed

lemma hd_re_sub_escape:
  "s \<noteq> [] \<Longrightarrow> rep \<noteq> [] \<Longrightarrow> hd (re_sub_escape c rep s) = hd s \<or> hd (re_sub_escape c rep s) = hd rep"
  by (induction c rep s rule: re_sub_escape.induct) auto

lemma re_sub_escape_Nil_iff: "rep \<noteq> [] \<Longrightarrow> re_sub_escape c rep s = [] \<longleftrightarrow> s = []"
  by (induction c rep s rule: re_sub_escape.induct) auto

lemma set_re_sub_escape: "set (re_sub_escape c rep s) \<subseteq> set s \<union> set rep"
  by (induction c rep s rule: re_sub_escape.induct) auto

lemma re_sub_escape_no_pair:
  assumes "rep \<noteq> []" "BSL \<notin> set rep" "d \<notin> set rep" "d = c \<or> \<not> sublist [BSL, d] s"
  shows "\<not> sublist [BSL, d] (re_sub_escape c rep s)"
  using assms
proof (induction c rep s rule: re_sub_escape.induct)
  case (1 c rep a b r)
  show ?case
  proof (cases "a = BSL \<and> b = c")
    case True
    have r: "d = c \<or> \<not> sublist [BSL, d] r"
      using "1.prems"(4) by (auto dest: sublist2_tl)
    have "\<not> sublist [BSL, d] (re_sub_escape c rep r)"
      using "1.IH"(1) True "1.prems"(1,2,3) r by blast
    moreover have "\<not> sublist [BSL, d] rep"
      using "1.prems"(2) by (meson set_mono_sublist subsetD list.set_intros(1))
    moreover have "last rep \<noteq> BSL"
      using "1.prems"(1,2) last_in_set by metis
    ultimately show ?thesis
      using True by (simp add: sublist2_append)
  next
    case False
    have r: "d = c \<or> \<not> sublist [BSL, d] (b # r)"
      using "1.prems"(4) by auto
    have ih: "\<not> sublist [BSL, d] (re_sub_escape c rep (b # r))"
      using "1.IH"(2) False "1.prems"(1,2,3) r by blast
    have hd: "hd (re_sub_escape c rep (b # r)) = b \<or> hd (re_sub_escape c rep (b # r)) = hd rep"
      using hd_re_sub_escape [of "b # r" rep c] "1.prems"(1) by simp
    have ne: "re_sub_escape c rep (b # r) \<noteq> []"
      using "1.prems"(1) by (simp add: re_sub_escape_Nil_iff)
    have hr: "hd rep \<noteq> d"
      using "1.prems"(1,3) hd_in_set by metis
    have ab: "\<not> (a = BSL \<and> b = d)"
      using False "1.prems"(4) by auto
    have "\<not> sublist [BSL, d] ([a] @ re_sub_escape c rep (b # r))"
      unfolding sublist2_append using ih hd hr ab by auto
    then show ?thesis using False by auto
  qed
qed simp_all

subsection \<open>re_sub_newlines\<close>

lemma re_sub_newlines_single: "re_sub_newlines [a] = [a]"
  by simp

lemma re_sub_newlines_Cons2:
  "re_sub_newlines (a # b # r) =
     (if a = LF \<and> b = LF then re_sub_newlines (b # r) else a # re_sub_newlines (b # r))"
  by simp

lemma re_sub_newlines_Nil_iff: "re_sub_newlines s = [] \<longleftrightarrow> s = []"
  by (cases s) simp_all

lemma hd_re_sub_newlines: "hd (re_sub_newlines s) = hd s"
  by (cases s) simp_all

lemma set_re_sub_newlines: "set (re_sub_newlines s) = set s"
proof (induction s rule: induct_list012)
  case (3 x y zs)
  then show ?case
    by (simp only: re_sub_newlines_Cons2) auto
qed simp_all

lemma re_sub_newlines_no_run: "\<not> sublist [LF, LF] (re_sub_newlines s)"
proof (induction s rule: induct_list012)
  case (3 x y zs)
  have "\<not> sublist [LF, LF] ([x] @ re_sub_newlines (y # zs))" if "\<not> (x = LF \<and> y = LF)"
    unfolding sublist2_append using 3(2) that hd_re_sub_newlines [of "y # zs"]
    by (auto simp del: re_sub_newlines.simps)
  then show ?case
    using 3(2) by (auto simp only: re_sub_newlines_Cons2 append_Cons append_Nil split: if_splits)
qed simp_all

lemma re_sub_newlines_id: "\<not> sublist [LF, LF] s \<Longrightarrow> re_sub_newlines s = s"
proof (induction s rule: induct_list012)
  case (3 x y zs)
  then show ?case
    by (simp only: re_sub_newlines_Cons2) auto
qed simp_all

lemma re_sub_newlines_run:
  "re_sub_newlines (u @ LF # LF # v) = re_sub_newlines (u @ LF # v)"
proof (induction u rule: induct_list012)
  case 1
  show ?case by simp
next
  case (2 x)
  show ?case by simp
next
  case (3 x y zs)
  then show ?case
    by (simp only: re_sub_newlines_Cons2 append_Cons) 
qed

lemma re_sub_newlines_keeps_no_pair:
  "\<not> sublist [a, b] s \<Longrightarrow> \<not> sublist [a, b] (re_sub_newlines s)"
proof (induction s rule: induct_list012)
  case (3 x y zs)
  have ih: "\<not> sublist [a, b] (re_sub_newlines (y # zs))"
    using 3 by auto
  have "\<not> sublist [a, b] ([x] @ re_sub_newlines (y # zs))"
    unfolding sublist2_append using ih 3(3) hd_re_sub_newlines [of "y # zs"]
    by (auto simp del: re_sub_newlines.simps)
  then show ?case
    using ih by (auto simp only: re_sub_newlines_Cons2 append_Cons append_Nil split: if_splits)
qed simp_all

lemma re_sub_newlines_snoc:
  "re_sub_newlines (s @ [a]) =
     (if s \<noteq> [] \<and> last s = LF \<and> a = LF then re_sub_newlines s else re_sub_newlines s @ [a])"
proof (induction s rule: induct_list012)
  case 1
  show ?case by simp
next
  case (2 x)
  show ?case by simp
next
  case (3 x y zs)
  then show ?case
    by (simp only: re_sub_newlines_Cons2 append_Cons) auto
qed

lemma re_sub_newlines_Cons:
  "re_sub_newlines (a # r) =
     (if r \<noteq> [] \<and> hd r = LF \<and> a = LF then re_sub_newlines r else a # re_sub_newlines r)"
  by (cases r) simp_all

lemma re_sub_newlines_rev: "re_sub_newlines (rev s) = rev (re_sub_newlines s)"
proof (induction s)
  case Nil
  show ?case by simp
next
  case (Cons a r)
  show ?case
    using Cons
    by (simp only: rev.simps re_sub_newlines_snoc re_sub_newlines_Cons)
       (auto simp: last_rev simp del: re_sub_newlines.simps)
qed

lemma re_sub_newlines_dropWhile:
  "dropWhile is_space (re_sub_newlines s) = re_sub_newlines (dropWhile is_space s)"
proof (induction s rule: induct_list012)
  case 1
  show ?case by simp
next
  case (2 x)
  show ?case by simp
next
  case (3 x y zs)
  have lf: "is_space LF" by (simp add: is_space_def)
  show ?case
  proof (cases "x = LF \<and> y = LF")
    case True
    then show ?thesis using 3(2) lf
      by (simp add: re_sub_newlines_Cons2 del: re_sub_newlines.simps)
  next
    case False
    then show ?thesis using 3(2)
      by (auto simp add: re_sub_newlines_Cons2 simp del: re_sub_newlines.simps)
  qed
qed

subsection \<open>py_strip\<close>

lemma last_dropWhile: "dropWhile P xs \<noteq> [] \<Longrightarrow> last (dropWhile P xs) = last xs"
  by (induction xs) (auto split: if_splits)

lemma py_strip_trimmed: "trimmed (py_strip s)"
proof -
  let ?t = "dropWhile is_space s"
  let ?u = "dropWhile is_space (rev ?t)"
  show ?thesis
  proof (cases "?u = []")
    case True
    then show ?thesis by (simp add: py_strip_def trimmed_def)
  next
    case False
    have "?u = []" if "?t = []" unfolding that by simp
    with False have t: "?t \<noteq> []" by blast
    have 1: "\<not> is_space (hd ?u)" using False hd_dropWhile by blast
    have "last ?u = last (rev ?t)" using False by (rule last_dropWhile)
    then have "last ?u = hd ?t" using t by (simp add: last_rev)
    moreover have "\<not> is_space (hd ?t)" using t hd_dropWhile by blast
    ultimately have 2: "\<not> is_space (last ?u)" by simp
    show ?thesis
      using False 1 2 by (simp add: py_strip_def trimmed_def hd_rev last_rev)
  qed
qed

lemma py_strip_id: "trimmed s \<Longrightarrow> py_strip s = s"
proof (cases "s = []")
  case True
  then show ?thesis by (simp add: py_strip_def)
next
  case False
  assume "trimmed s"
  with False have h: "\<not> is_space (hd s)" and l: "\<not> is_space (last s)"
    by (auto simp: trimmed_def)
  have 1: "dropWhile is_space s = s" using False h by (cases s) auto
  have 2: "dropWhile is_space (rev s) = rev s" using False l by (cases "rev s") (auto simp: hd_rev [symmetric])
  show ?thesis by (simp add: py_strip_def 1 2)
qed

lemma py_strip_sublist: "sublist (py_strip s) s"
proof -
  have "sublist (dropWhile is_space (rev (dropWhile is_space s))) (rev (dropWhile is_space s))"
    by (rule sublist_dropWhile)
  then have "sublist (py_strip s) (dropWhile is_space s)"
    by (simp add: py_strip_def sublist_rev_left)
  moreover have "sublist (dropWhile is_space s) s" by (rule sublist_dropWhile)
  ultimately show ?thesis by (rule sublist_order.order_trans)
qed

lemma py_strip_keeps_no_pair: "\<not> sublist p s \<Longrightarrow> \<not> sublist p (py_strip s)"
  using py_strip_sublist sublist_order.order_trans by blast

lemma set_py_strip: "set (py_strip s) \<subseteq> set s"
  using py_strip_sublist set_mono_sublist by blast

lemma py_strip_re_sub_newlines: "py_strip (re_sub_newlines s) = re_sub_newlines (py_strip s)"
  by (simp add: py_strip_def re_sub_newlines_dropWhile re_sub_newlines_rev [symmetric])

lemma remove_cr_id: "CR \<notin> set s \<Longrightarrow> remove_cr s = s"
  by (auto simp: remove_cr_def filter_id_conv)

subsection \<open>Normal forms of clean_text\<close>

lemma clean_text_plain:
  assumes "\<not> sublist [BSL, 110] s" "\<not> sublist [BSL, 116] s" "CR \<notin> set s"
  shows "clean_text s = py_strip (re_sub_newlines s)"
  using assms
  by (simp add: clean_text_def re_sub_escape_id remove_cr_id set_re_sub_newlines)

lemma clean_text_normal: "normal_text s \<Longrightarrow> clean_text s = s"
  by (simp add: normal_text_def clean_text_plain re_sub_newlines_id py_strip_id)

lemma clean_text_no_cr:
  assumes "CR \<notin> set x"
  shows "normal_text (clean_text x)"
proof -
  let ?a = "re_sub_escape 110 [SPC] x"
  let ?b = "re_sub_escape 116 [SPC, SPC, SPC, SPC] ?a"
  let ?c = "re_sub_newlines ?b"
  have a_n: "\<not> sublist [BSL, 110] ?a"
    by (rule re_sub_escape_no_pair) simp_all
  have b_n: "\<not> sublist [BSL, 110] ?b"
    using a_n by (intro re_sub_escape_no_pair) simp_all
  have b_t: "\<not> sublist [BSL, 116] ?b"
    by (rule re_sub_escape_no_pair) simp_all
  have cr_a: "CR \<notin> set ?a" using assms set_re_sub_escape [of 110 "[SPC]" x] by auto
  have cr_b: "CR \<notin> set ?b" using cr_a set_re_sub_escape [of 116 "[SPC, SPC, SPC, SPC]" ?a] by auto
  have cr_c: "CR \<notin> set ?c" using cr_b by (simp add: set_re_sub_newlines)
  have eq: "clean_text x = py_strip ?c"
    using cr_c by (simp add: clean_text_def remove_cr_id)
  have "\<not> sublist [BSL, 110] ?c" "\<not> sublist [BSL, 116] ?c" "\<not> sublist [LF, LF] ?c"
    using b_n b_t by (simp_all add: re_sub_newlines_keeps_no_pair re_sub_newlines_no_run del: re_sub_newlines.simps)
  then show ?thesis
    unfolding eq normal_text_def
    using cr_c set_py_strip [of ?c] py_strip_trimmed [of ?c]
    by (auto simp: py_strip_keeps_no_pair)
qed

lemma py_strip_Cons_space: "is_space c \<Longrightarrow> py_strip (c # u) = py_strip u"
  by (simp add: py_strip_def)

lemma py_strip_snoc_space: "py_strip (u @ [c]) = py_strip u" if "is_space c"
proof (cases "\<forall>x\<in>set u. is_space x")
  case True
  then have d: "dropWhile is_space u = []" by (simp only: dropWhile_eq_Nil_conv)
  show ?thesis using True that by (simp add: py_strip_def dropWhile_append d)
next
  case False
  then show ?thesis using that by (auto simp add: py_strip_def dropWhile_append)
qed

lemma re_sub_escape_replaces: "c \<noteq> BSL \<Longrightarrow> replaces_each [BSL, c] rep (re_sub_escape c rep)"
  unfolding replaces_each_def
  using re_sub_escape_match [of c rep] re_sub_escape_id [of c _ rep] by simp

lemma re_sub_newlines_collapses: "collapses_runs LF re_sub_newlines"
  unfolding collapses_runs_def
  using re_sub_newlines_run re_sub_newlines_id by simp

lemma remove_cr_removes: "removes_each CR remove_cr"
  unfolding removes_each_def using remove_cr_id by (simp add: remove_cr_def)

lemma py_strip_trims: "trims is_space py_strip"
  unfolding trims_def
  using py_strip_Cons_space py_strip_snoc_space py_strip_id
  by (simp add: trimmed_def)

text \<open>
  C5: for every input string, \<open>clean_text\<close> is the composition of five steps: each
  literal backslash-n is replaced by one space, each literal backslash-t by four spaces,
  each run of two or more line feeds is collapsed into one, each carriage return is
  deleted, and whitespace is trimmed at both ends.
\<close>

theorem clean_text_stages:
  "clean_text x =
     py_strip (remove_cr (re_sub_newlines
       (re_sub_escape 116 [SPC, SPC, SPC, SPC] (re_sub_escape 110 [SPC] x)))) \<and>
   replaces_each [BSL, 110] [SPC] (re_sub_escape 110 [SPC]) \<and>
   replaces_each [BSL, 116] [SPC, SPC, SPC, SPC] (re_sub_escape 116 [SPC, SPC, SPC, SPC]) \<and>
   collapses_runs LF re_sub_newlines \<and>
   removes_each CR remove_cr \<and>
   trims is_space py_strip"
  using re_sub_escape_replaces [of 110 "[SPC]"]
    re_sub_escape_replaces [of 116 "[SPC, SPC, SPC, SPC]"]
    re_sub_newlines_collapses remove_cr_removes py_strip_trims
  by (simp add: clean_text_def)

text \<open>The steps of C5 on concrete strings.\<close>

theorem clean_text_stages_witness:
  "\<not> sublist [BSL, 110] (str ''ab'') \<and> re_sub_escape 110 [SPC] (str ''ab'') = str ''ab'' \<and>
   \<not> sublist [BSL, 116] (str ''ab'') \<and> re_sub_escape 116 [SPC, SPC, SPC, SPC] (str ''ab'') = str ''ab'' \<and>
   \<not> sublist [LF, LF] (str ''ab'') \<and> re_sub_newlines (str ''ab'') = str ''ab'' \<and>
   CR \<notin> set (str ''ab'') \<and> remove_cr (str ''ab'') = str ''ab'' \<and>
   is_space SPC \<and> py_strip (SPC # str ''ab'') = py_strip (str ''ab'') \<and>
   \<not> is_space (hd (str ''ab'')) \<and> \<not> is_space (last (str ''ab'')) \<and> py_strip (str ''ab'') = str ''ab'' \<and>
   clean_text ([SPC, BSL, 110, BSL, 116, LF, LF, LF, CR] @ str ''ab'' @ [LF]) = str ''ab''"
proof -
  have h: "\<not> sublist [BSL, 110] (str ''ab'')" "\<not> sublist [BSL, 116] (str ''ab'')"
    "\<not> sublist [LF, LF] (str ''ab'')" "CR \<notin> set (str ''ab'')" "is_space SPC"
    "\<not> is_space (hd (str ''ab''))" "\<not> is_space (last (str ''ab''))"
    by (simp_all add: str_def is_space_def)
  note t = clean_text_stages [of "[SPC, BSL, 110, BSL, 116, LF, LF, LF, CR] @ str ''ab'' @ [LF]",
      unfolded replaces_each_def collapses_runs_def removes_each_def trims_def]
  note r1 = t [THEN conjunct2, THEN conjunct1, THEN conjunct2, rule_format, OF h(1)]
  note r2 = t [THEN conjunct2, THEN conjunct2, THEN conjunct1, THEN conjunct2, rule_format, OF h(2)]
  note r3 = t [THEN conjunct2, THEN conjunct2, THEN conjunct2, THEN conjunct1, THEN conjunct2,
      rule_format, OF h(3)]
  note r4 = t [THEN conjunct2, THEN conjunct2, THEN conjunct2, THEN conjunct2, THEN conjunct1,
      THEN conjunct2, rule_format, OF h(4)]
  note r5 = t [THEN conjunct2, THEN conjunct2, THEN conjunct2, THEN conjunct2, THEN conjunct2,
      THEN conjunct1, rule_format, OF h(5), THEN conjunct1, of "str ''ab''"]
  have nt: "str ''ab'' = [] \<or> \<not> is_space (hd (str ''ab'')) \<and> \<not> is_space (last (str ''ab''))"
    using h(6,7) by simp
  note r6 = t [THEN conjunct2, THEN conjunct2, THEN conjunct2, THEN conjunct2, THEN conjunct2,
      THEN conjunct2, rule_format, OF nt]
  have e: "clean_text ([SPC, BSL, 110, BSL, 116, LF, LF, LF, CR] @ str ''ab'' @ [LF]) = str ''ab''"
    using t [THEN conjunct1] by (simp add: str_def remove_cr_def py_strip_def is_space_def)
  show ?thesis
    using h r1 r2 r3 r4 r5 r6 e by simp
qed

text \<open>
  C3: normalization is not idempotent on the text made of \<open>a\<close>, a carriage return, a
  line feed, a carriage return, a line feed and \<open>b\<close>.  The carriage returns
  keep the two line feeds apart while the runs are collapsed and are deleted only
  afterwards, so the result still holds a run of two line feeds, which a second
  normalization collapses.
\<close>

theorem clean_text_not_idempotent:
  "clean_text (clean_text (str ''a'' @ [CR, LF, CR, LF] @ str ''b'')) \<noteq>
   clean_text (str ''a'' @ [CR, LF, CR, LF] @ str ''b'')"
  by (simp add: clean_text_def str_def remove_cr_def py_strip_def is_space_def)

text \<open>
  Where the carriage returns play no part: \<open>clean_text\<close> is idempotent on every string
  without them; and on a string that also holds no literal backslash-n or backslash-t,
  \<open>clean_text\<close> is stripping plus collapsing the runs of line feeds, in either order.
\<close>

lemma clean_text_idempotent_no_cr:
  "(CR \<notin> set x \<longrightarrow> clean_text (clean_text x) = clean_text x) \<and>
   (\<not> sublist [BSL, 110] y \<and> \<not> sublist [BSL, 116] y \<and> CR \<notin> set y \<longrightarrow>
      clean_text y = py_strip (re_sub_newlines y) \<and> clean_text y = re_sub_newlines (py_strip y))"
  using clean_text_no_cr [of x] clean_text_normal [of "clean_text x"] clean_text_plain [of y]
  by (simp add: py_strip_re_sub_newlines)

text \<open>The same on two concrete strings.\<close>

lemma clean_text_idempotent_no_cr_witness:
  "CR \<notin> set ([SPC, BSL, 110, LF, LF] @ str ''a b'' @ [BSL, 116, LF]) \<and>
   clean_text (clean_text ([SPC, BSL, 110, LF, LF] @ str ''a b'' @ [BSL, 116, LF])) =
     clean_text ([SPC, BSL, 110, LF, LF] @ str ''a b'' @ [BSL, 116, LF]) \<and>
   \<not> sublist [BSL, 110] ([SPC, LF, LF, LF] @ str ''a'' @ [LF, LF] @ str ''b'' @ [LF]) \<and>
   \<not> sublist [BSL, 116] ([SPC, LF, LF, LF] @ str ''a'' @ [LF, LF] @ str ''b'' @ [LF]) \<and>
   CR \<notin> set ([SPC, LF, LF, LF] @ str ''a'' @ [LF, LF] @ str ''b'' @ [LF]) \<and>
   clean_text ([SPC, LF, LF, LF] @ str ''a'' @ [LF, LF] @ str ''b'' @ [LF]) =
     re_sub_newlines (py_strip ([SPC, LF, LF, LF] @ str ''a'' @ [LF, LF] @ str ''b'' @ [LF]))"
proof -
  have h: "CR \<notin> set ([SPC, BSL, 110, LF, LF] @ str ''a b'' @ [BSL, 116, LF])"
    "\<not> sublist [BSL, 110] ([SPC, LF, LF, LF] @ str ''a'' @ [LF, LF] @ str ''b'' @ [LF])"
    "\<not> sublist [BSL, 116] ([SPC, LF, LF, LF] @ str ''a'' @ [LF, LF] @ str ''b'' @ [LF])"
    "CR \<notin> set ([SPC, LF, LF, LF] @ str ''a'' @ [LF, LF] @ str ''b'' @ [LF])"
    by (simp_all add: str_def)
  show ?thesis
    using h clean_text_idempotent_no_cr
      [of "[SPC, BSL, 110, LF, LF] @ str ''a b'' @ [BSL, 116, LF]"
          "[SPC, LF, LF, LF] @ str ''a'' @ [LF, LF] @ str ''b'' @ [LF]"]
    by blast
qed

section \<open>Properties of the report documents\<close>

subsection \<open>Splitting\<close>

lemma split_from_not_Nil: "split_from sep cur s \<noteq> []"
  by (induction sep cur s rule: split_from.induct) auto

lemma split_from_cur:
  "split_from sep cur s = (cur @ hd (split_from sep [] s)) # tl (split_from sep [] s)"
proof (induction s arbitrary: cur)
  case Nil
  show ?case by simp
next
  case (Cons c cs)
  show ?case
  proof (cases "sep \<noteq> [] \<and> prefix sep (c # cs)")
    case True
    then show ?thesis by simp
  next
    case False
    have "split_from sep cur (c # cs) = split_from sep (cur @ [c]) cs"
      using False by auto
    also have "\<dots> = ((cur @ [c]) @ hd (split_from sep [] cs)) # tl (split_from sep [] cs)"
      by (rule Cons.IH)
    finally have 1: "split_from sep cur (c # cs) =
        (cur @ c # hd (split_from sep [] cs)) # tl (split_from sep [] cs)" by simp
    have "split_from sep [] (c # cs) = split_from sep [c] cs"
      using False by auto
    also have "\<dots> = ([c] @ hd (split_from sep [] cs)) # tl (split_from sep [] cs)"
      by (rule Cons.IH)
    finally have 2: "split_from sep [] (c # cs) =
        (c # hd (split_from sep [] cs)) # tl (split_from sep [] cs)" by simp
    show ?thesis unfolding 1 2 by simp
  qed
qed

lemma split_from_no_sep: "\<not> sublist sep s \<Longrightarrow> split_from sep cur s = [cur @ s]"
proof (induction sep cur s rule: split_from.induct)
  case (1 sep cur)
  show ?case by simp
next
  case (2 sep cur c cs)
  have np: "\<not> prefix sep (c # cs)" using 2(3) by (auto simp: sublist_Cons_right)
  have "\<not> sublist sep cs" using 2(3) by (auto simp: sublist_Cons_right)
  then show ?case using 2(2) np by simp
qed

lemma split_from_sublist: "x \<in> set (split_from sep cur s) \<Longrightarrow> sublist x (cur @ s)"
proof (induction sep cur s rule: split_from.induct)
  case (1 sep cur)
  then show ?case by simp
next
  case (2 sep cur c cs)
  show ?case
  proof (cases "sep \<noteq> [] \<and> prefix sep (c # cs)")
    case True
    then have "x = cur \<or> x \<in> set (split_from sep [] (drop (length sep) (c # cs)))"
      using 2(3) by simp
    then show ?thesis
    proof
      assume "x = cur"
      then show ?thesis by (simp add: sublist_append_rightI)
    next
      assume "x \<in> set (split_from sep [] (drop (length sep) (c # cs)))"
      then have "sublist x (drop (length sep) (c # cs))"
        using 2(1) True by simp
      moreover have "sublist (drop (length sep) (c # cs)) (cur @ c # cs)"
        by (intro suffix_imp_sublist suffix_appendI suffix_drop)
      ultimately show ?thesis by (rule sublist_order.order_trans)
    qed
  next
    case False
    then have "x \<in> set (split_from sep (cur @ [c]) cs)" using 2(3) by auto
    then show ?thesis using 2(2) False by simp
  qed
qed

lemma py_join_split_from: "py_join sep (split_from sep cur s) = cur @ s"
proof (induction sep cur s rule: split_from.induct)
  case (1 sep cur)
  show ?case by simp
next
  case (2 sep cur c cs)
  show ?case
  proof (cases "sep \<noteq> [] \<and> prefix sep (c # cs)")
    case True
    obtain y r where yr: "split_from sep [] (drop (length sep) (c # cs)) = y # r"
      using split_from_not_Nil by (meson neq_Nil_conv)
    have "sep @ drop (length sep) (c # cs) = c # cs"
      using True by (metis append_eq_conv_conj prefix_def)
    then show ?thesis using True 2(1) yr by simp
  next
    case False
    then show ?thesis using 2(2) by auto
  qed
qed

lemma py_strip_Nil_iff: "py_strip s = [] \<longleftrightarrow> (\<forall>c\<in>set s. is_space c)"
proof -
  have "(\<forall>x\<in>set (dropWhile is_space s). is_space x) \<longleftrightarrow> dropWhile is_space s = []"
  proof
    assume a: "\<forall>x\<in>set (dropWhile is_space s). is_space x"
    show "dropWhile is_space s = []"
    proof (rule ccontr)
      assume n: "dropWhile is_space s \<noteq> []"
      then have "\<not> is_space (hd (dropWhile is_space s))" by (rule hd_dropWhile)
      moreover have "hd (dropWhile is_space s) \<in> set (dropWhile is_space s)" using n by simp
      ultimately show False using a by blast
    qed
  next
    assume d: "dropWhile is_space s = []"
    show "\<forall>x\<in>set (dropWhile is_space s). is_space x" unfolding d by simp
  qed
  then show ?thesis
    by (simp add: py_strip_def dropWhile_eq_Nil_conv)
qed

lemma py_split1_body_sublist:
  "py_split1 c s = t # b # r \<Longrightarrow> sublist b s"
proof -
  assume a: "py_split1 c s = t # b # r"
  then obtain x where "dropWhile (\<lambda>x. x \<noteq> c) s = x # b"
    by (auto simp: py_split1_def split: list.splits)
  then have "suffix b (dropWhile (\<lambda>x. x \<noteq> c) s)" by (simp add: suffix_ConsI)
  then have "suffix b s" using suffix_dropWhile suffix_order.order_trans by blast
  then show ?thesis by simp
qed

lemma section_blocks_sublist: "Paragraph b \<in> set (section_blocks s) \<Longrightarrow> sublist b s"
proof -
  assume a: "Paragraph b \<in> set (section_blocks s)"
  show ?thesis
  proof (cases "py_split1 LF s")
    case Nil
    then show ?thesis using a by (cases "py_strip s = []") (simp_all add: section_blocks_def)
  next
    case (Cons t l)
    show ?thesis
    proof (cases l)
      case Nil
      then show ?thesis using a Cons by (cases "py_strip s = []") (simp_all add: section_blocks_def)
    next
      case (Cons b' r)
      then have "b = b'"
        using a \<open>py_split1 LF s = t # l\<close>
        by (cases "py_strip s = []") (simp_all add: section_blocks_def)
      then show ?thesis
        using py_split1_body_sublist [of LF s t b r] Cons \<open>py_split1 LF s = t # l\<close> by simp
    qed
  qed
qed

lemma section_blocks_blank: "py_strip s = [] \<Longrightarrow> section_blocks s = []"
  by (simp add: section_blocks_def)

lemma concat_section_blocks_filter:
  "concat (map section_blocks (filter (\<lambda>s. py_strip s \<noteq> []) xs)) = concat (map section_blocks xs)"
  by (induction xs) (auto simp: section_blocks_blank)

subsection \<open>Structured mode\<close>

lemma clean_value_no_output: "clean_value no_output = str ''No output available''"
  by (simp add: clean_value_def no_output_def clean_text_def str_def remove_cr_def
      py_strip_def is_space_def)

lemma sections_of_generate_docx_report:
  "sections_of (generate_docx_report inputs) =
     [(str ''Code Analysis Output'',
         clean_value (dict_get inputs (str ''code_analysis_output'') no_output)),
      (str ''Security Analysis Output'',
         clean_value (dict_get inputs (str ''security_analysis_output'') no_output)),
      (str ''Performance Analysis Output'',
         clean_value (dict_get inputs (str ''performance_analysis_output'') no_output)),
      (str ''Architecture Analysis Output'',
         clean_value (dict_get inputs (str ''code_test_output'') no_output)),
      (str ''Best Practices Output'',
         clean_value (dict_get inputs (str ''best_practices_output'') no_output))]"
  by (simp add: generate_docx_report_def)

lemma dict_get_absent: "d k = None \<Longrightarrow> dict_get d k dflt = dflt"
  by (simp add: dict_get_def)

lemma less_5_cases: "i < (5::nat) \<Longrightarrow> i = 0 \<or> i = 1 \<or> i = 2 \<or> i = 3 \<or> i = 4"
  by arith

text \<open>
  C8: for every outputs mapping, \<open>generate_docx_report\<close> writes exactly one section per
  category, in a fixed order, and the body of a category whose key is absent is the
  placeholder text.  The function has no failing branch: a missing key is read with a
  default value.
\<close>

theorem structured_sections:
  "map fst (sections_of (generate_docx_report inputs)) =
     [str ''Code Analysis Output'', str ''Security Analysis Output'',
      str ''Performance Analysis Output'', str ''Architecture Analysis Output'',
      str ''Best Practices Output''] \<and>
   (\<forall>i<5. inputs (category_keys ! i) = None \<longrightarrow>
      snd (sections_of (generate_docx_report inputs) ! i) = str ''No output available'')"
proof (intro conjI allI impI)
  show "map fst (sections_of (generate_docx_report inputs)) =
     [str ''Code Analysis Output'', str ''Security Analysis Output'',
      str ''Performance Analysis Output'', str ''Architecture Analysis Output'',
      str ''Best Practices Output'']"
    by (simp add: sections_of_generate_docx_report)
next
  fix i :: nat
  assume i: "i < 5" and n: "inputs (category_keys ! i) = None"
  from less_5_cases [OF i] show
    "snd (sections_of (generate_docx_report inputs) ! i) = str ''No output available''"
    using n
    by (elim disjE)
       (simp_all add: sections_of_generate_docx_report category_keys_def dict_get_absent
          clean_value_no_output)
qed

text \<open>
  C8 on the mapping that holds \<open>code_analysis_output\<close> only: the security section has the
  placeholder as its body.
\<close>

theorem structured_sections_witness:
  "[str ''code_analysis_output'' \<mapsto> PyStr (str ''ok'')] (category_keys ! 1) = None \<and>
   sections_of (generate_docx_report [str ''code_analysis_output'' \<mapsto> PyStr (str ''ok'')]) ! 1 =
     (str ''Security Analysis Output'', str ''No output available'')"
proof -
  let ?inp = "[str ''code_analysis_output'' \<mapsto> PyStr (str ''ok'')]"
  have h: "?inp (category_keys ! 1) = None"
    by (simp add: category_keys_def str_def)
  have l: "(1::nat) < 5" by simp
  note t = structured_sections [of ?inp]
  have b: "snd (sections_of (generate_docx_report ?inp) ! 1) = str ''No output available''"
    using t [THEN conjunct2, rule_format, OF l h] .
  have "fst (sections_of (generate_docx_report ?inp) ! 1) =
      map fst (sections_of (generate_docx_report ?inp)) ! 1"
    by (simp add: sections_of_generate_docx_report)
  then have a: "fst (sections_of (generate_docx_report ?inp) ! 1) = str ''Security Analysis Output''"
    using t [THEN conjunct1] by simp
  show ?thesis using h a b by (simp add: prod_eq_iff)
qed

lemma prepare_inputs_code_test_output:
  "prepare_inputs file_path code_content agent_outputs (str ''code_test_output'') = None"
  by (simp add: prepare_inputs_def str_def)

text \<open>
  C9: \<open>prepare_inputs\<close> stores the test output under \<open>code_test_coverage\<close> and nothing
  under \<open>code_test_output\<close>, the key \<open>generate_docx_report\<close> reads; so the fourth
  section, "Architecture Analysis Output", always has the placeholder as its body.
\<close>

theorem architecture_section_placeholder:
  "prepare_inputs file_path code_content agent_outputs (str ''code_test_coverage'') =
     Some (dict_get agent_outputs (str ''code_test_output'') no_output) \<and>
   prepare_inputs file_path code_content agent_outputs (str ''code_test_output'') = None \<and>
   sections_of (generate_docx_report (prepare_inputs file_path code_content agent_outputs)) ! 3 =
     (str ''Architecture Analysis Output'', str ''No output available'')"
proof -
  have 1: "prepare_inputs file_path code_content agent_outputs (str ''code_test_coverage'') =
     Some (dict_get agent_outputs (str ''code_test_output'') no_output)"
    by (simp add: prepare_inputs_def str_def)
  show ?thesis
    using 1 prepare_inputs_code_test_output [of file_path code_content agent_outputs]
    by (simp add: sections_of_generate_docx_report dict_get_absent clean_value_no_output)
qed

subsection \<open>Free-text split mode\<close>

lemma report_document_eq:
  "\<exists>first rest. py_split (str ''\<newline># '') content = first # rest \<and>
     report_document content =
       Inr (Heading (str ''Code Analysis Report'') 0 # Paragraph first #
            concat (map section_blocks rest))"
proof -
  obtain first rest where "py_split (str ''\<newline># '') content = first # rest"
    using split_from_not_Nil [of "str ''\<newline># ''" "[]" content]
    by (auto simp: py_split_def neq_Nil_conv)
  then show ?thesis by (simp add: report_document_def)
qed

lemma report_document_paragraph_sublist:
  assumes "report_document content = Inr doc" "Paragraph b \<in> set doc"
  shows "sublist b content"
proof -
  obtain first rest where s: "py_split (str ''\<newline># '') content = first # rest"
    and d: "report_document content =
       Inr (Heading (str ''Code Analysis Report'') 0 # Paragraph first #
            concat (map section_blocks rest))"
    using report_document_eq by blast
  have chunk: "sublist x content" if "x \<in> set (first # rest)" for x
    using that split_from_sublist [of x "str ''\<newline># ''" "[]" content] s
    by (simp add: py_split_def)
  from assms d have "b = first \<or> (\<exists>x\<in>set rest. Paragraph b \<in> set (section_blocks x))"
    by auto
  then show ?thesis
  proof
    assume "b = first"
    then show ?thesis using chunk by simp
  next
    assume "\<exists>x\<in>set rest. Paragraph b \<in> set (section_blocks x)"
    then obtain x where x: "x \<in> set rest" "Paragraph b \<in> set (section_blocks x)" by blast
    have "sublist b x" using x(2) by (rule section_blocks_sublist)
    moreover have "sublist x content" using chunk x(1) by simp
    ultimately show ?thesis by (rule sublist_order.order_trans)
  qed
qed

text \<open>
  C4 as stated fails for the free-text split mode: \<open>save_report\<close> writes the body of a
  section as it stands, here with a run of line feeds and a trailing space that
  \<open>clean_text\<close> would have removed.
\<close>

theorem save_report_not_normalized:
  "report_document (str ''intro\<newline># Notes\<newline>a\<newline>\<newline>\<newline>b '') =
     Inr [Heading (str ''Code Analysis Report'') 0, Paragraph (str ''intro''),
          Heading (str ''Notes'') 1, Paragraph (str ''a\<newline>\<newline>\<newline>b '')] \<and>
   clean_text (str ''a\<newline>\<newline>\<newline>b '') = str ''a\<newline>b'' \<and>
   str ''a\<newline>\<newline>\<newline>b '' \<noteq> str ''a\<newline>b''"
  by (simp add: report_document_def py_split_def section_blocks_def py_split1_def
      clean_text_def remove_cr_def py_strip_def is_space_def str_def)

lemma dropWhile_line_feed:
  assumes "LF \<in> set s"
  shows "dropWhile (\<lambda>c. c \<noteq> LF) s = LF # tl (dropWhile (\<lambda>c. c \<noteq> LF) s)"
proof -
  have n: "dropWhile (\<lambda>c. c \<noteq> LF) s \<noteq> []"
    using assms by (auto simp: dropWhile_eq_Nil_conv)
  then have "\<not> (hd (dropWhile (\<lambda>c. c \<noteq> LF) s) \<noteq> LF)" by (rule hd_dropWhile)
  then show ?thesis using n by (cases "dropWhile (\<lambda>c. c \<noteq> LF) s") auto
qed

lemma split_at_line_feed:
  assumes "LF \<in> set s"
  shows "s = takeWhile (\<lambda>c. c \<noteq> LF) s @ [LF] @ tl (dropWhile (\<lambda>c. c \<noteq> LF) s)"
proof -
  have "s = takeWhile (\<lambda>c. c \<noteq> LF) s @ dropWhile (\<lambda>c. c \<noteq> LF) s" by simp
  also have "dropWhile (\<lambda>c. c \<noteq> LF) s = LF # tl (dropWhile (\<lambda>c. c \<noteq> LF) s)"
    using assms by (rule dropWhile_line_feed)
  finally show ?thesis by simp
qed

lemma section_blocks_eq:
  "section_blocks s =
     (if py_strip s = [] then []
      else if LF \<in> set s
        then [Heading (takeWhile (\<lambda>c. c \<noteq> LF) s) 1,
              Paragraph (tl (dropWhile (\<lambda>c. c \<noteq> LF) s))]
        else [Heading s 1])"
proof (cases "LF \<in> set s")
  case True
  from dropWhile_line_feed [OF this] obtain r where
    r: "dropWhile (\<lambda>c. c \<noteq> LF) s = LF # r" "tl (dropWhile (\<lambda>c. c \<noteq> LF) s) = r"
    by (metis list.sel(3))
  show ?thesis using True by (simp add: section_blocks_def py_split1_def r)
next
  case False
  then have d: "dropWhile (\<lambda>c. c \<noteq> LF) s = []" by (auto simp: dropWhile_eq_Nil_conv)
  show ?thesis using False by (simp add: section_blocks_def py_split1_def d)
qed

text \<open>
  C4, amended: in structured mode every section body is \<open>clean_text\<close> of the value read
  for its category.  In free-text split mode no normalization is applied and the text is
  written verbatim: the lead paragraph is the first chunk of the split, whose chunks
  joined by the separator are the input; a chunk after the first that is not blank
  writes its first line as the heading and all that follows its first line feed,
  unchanged, as the paragraph; so every paragraph is a contiguous piece of the input.
\<close>

theorem normalization_by_mode:
  "map snd (sections_of (generate_docx_report inputs)) =
     map (\<lambda>k. clean_text (py_str (dict_get inputs k no_output))) category_keys \<and>
   (\<exists>first rest. py_split (str ''\<newline># '') content = first # rest \<and>
      report_document content =
        Inr (Heading (str ''Code Analysis Report'') 0 # Paragraph first #
             concat (map section_blocks rest))) \<and>
   py_join (str ''\<newline># '') (py_split (str ''\<newline># '') content) = content \<and>
   section_blocks s =
     (if py_strip s = [] then []
      else if LF \<in> set s
        then [Heading (takeWhile (\<lambda>c. c \<noteq> LF) s) 1,
              Paragraph (tl (dropWhile (\<lambda>c. c \<noteq> LF) s))]
        else [Heading s 1]) \<and>
   (LF \<in> set s \<longrightarrow>
      s = takeWhile (\<lambda>c. c \<noteq> LF) s @ [LF] @ tl (dropWhile (\<lambda>c. c \<noteq> LF) s)) \<and>
   (\<exists>doc. report_document content = Inr doc \<and>
      (\<forall>b. Paragraph b \<in> set doc \<longrightarrow> sublist b content))"
proof (intro conjI)
  show "map snd (sections_of (generate_docx_report inputs)) =
     map (\<lambda>k. clean_text (py_str (dict_get inputs k no_output))) category_keys"
    by (simp add: sections_of_generate_docx_report category_keys_def clean_value_def)
next
  show "\<exists>first rest. py_split (str ''\<newline># '') content = first # rest \<and>
      report_document content =
        Inr (Heading (str ''Code Analysis Report'') 0 # Paragraph first #
             concat (map section_blocks rest))"
    by (rule report_document_eq)
next
  show "py_join (str ''\<newline># '') (py_split (str ''\<newline># '') content) = content"
    by (simp add: py_split_def py_join_split_from)
next
  show "section_blocks s =
     (if py_strip s = [] then []
      else if LF \<in> set s
        then [Heading (takeWhile (\<lambda>c. c \<noteq> LF) s) 1,
              Paragraph (tl (dropWhile (\<lambda>c. c \<noteq> LF) s))]
        else [Heading s 1])"
    by (rule section_blocks_eq)
next
  show "LF \<in> set s \<longrightarrow>
      s = takeWhile (\<lambda>c. c \<noteq> LF) s @ [LF] @ tl (dropWhile (\<lambda>c. c \<noteq> LF) s)"
    using split_at_line_feed by blast
next
  obtain doc where d: "report_document content = Inr doc"
    using report_document_eq by blast
  then show "\<exists>doc. report_document content = Inr doc \<and>
      (\<forall>b. Paragraph b \<in> set doc \<longrightarrow> sublist b content)"
    using report_document_paragraph_sublist by blast
qed

text \<open>
  The amended C4 on a concrete text: the lead paragraph and the body keep their blanks
  and their run of line feeds.
\<close>

theorem normalization_by_mode_witness:
  "LF \<in> set (str ''Notes\<newline> a\<newline>\<newline>\<newline>b '') \<and>
   str ''Notes\<newline> a\<newline>\<newline>\<newline>b '' = str ''Notes'' @ [LF] @ str '' a\<newline>\<newline>\<newline>b '' \<and>
   section_blocks (str ''Notes\<newline> a\<newline>\<newline>\<newline>b '') =
     [Heading (str ''Notes'') 1, Paragraph (str '' a\<newline>\<newline>\<newline>b '')] \<and>
   Paragraph (str '' a\<newline>\<newline>\<newline>b '') \<in>
     set [Heading (str ''Code Analysis Report'') 0, Paragraph (str '' intro ''),
          Heading (str ''Notes'') 1, Paragraph (str '' a\<newline>\<newline>\<newline>b '')] \<and>
   report_document (str '' intro \<newline># Notes\<newline> a\<newline>\<newline>\<newline>b '') =
     Inr [Heading (str ''Code Analysis Report'') 0, Paragraph (str '' intro ''),
          Heading (str ''Notes'') 1, Paragraph (str '' a\<newline>\<newline>\<newline>b '')] \<and>
   sublist (str '' a\<newline>\<newline>\<newline>b '') (str '' intro \<newline># Notes\<newline> a\<newline>\<newline>\<newline>b '')"
proof -
  let ?c = "str '' intro \<newline># Notes\<newline> a\<newline>\<newline>\<newline>b ''"
  let ?s = "str ''Notes\<newline> a\<newline>\<newline>\<newline>b ''"
  let ?b = "str '' a\<newline>\<newline>\<newline>b ''"
  let ?d = "[Heading (str ''Code Analysis Report'') 0, Paragraph (str '' intro ''),
          Heading (str ''Notes'') 1, Paragraph ?b]"
  note t = normalization_by_mode [of Map.empty ?c ?s]
  have h: "LF \<in> set ?s" by (simp add: str_def)
  have sb: "section_blocks ?s = [Heading (str ''Notes'') 1, Paragraph ?b]"
    using t [THEN conjunct2, THEN conjunct2, THEN conjunct2, THEN conjunct1]
    by (simp add: py_strip_def is_space_def str_def)
  have sp: "?s = str ''Notes'' @ [LF] @ ?b"
    using t [THEN conjunct2, THEN conjunct2, THEN conjunct2, THEN conjunct2, THEN conjunct1,
        rule_format, OF h]
    by (simp add: str_def)
  have e: "report_document ?c = Inr ?d"
    by (simp add: report_document_def py_split_def section_blocks_def py_split1_def
      py_strip_def is_space_def str_def)
  have m: "Paragraph ?b \<in> set ?d" by simp
  obtain doc where d: "report_document ?c = Inr doc"
    and a: "\<forall>b. Paragraph b \<in> set doc \<longrightarrow> sublist b ?c"
    using t [THEN conjunct2, THEN conjunct2, THEN conjunct2, THEN conjunct2, THEN conjunct2]
    by blast
  from d e have "doc = ?d" by simp
  with a m have s: "sublist ?b ?c" by blast
  from h sp sb m e s show ?thesis by (intro conjI)
qed

text \<open>
  C10: the text is cut at the occurrences of the three-character separator line feed,
  hash, space and nowhere else (joining the chunks with the separator gives the text
  back, and a text without the separator is one chunk).  The first chunk is always
  written as a paragraph; a chunk after the first that is empty or holds whitespace only
  writes nothing.  A text that begins with hash, space is not cut there: the marker
  stays at the front of the lead paragraph.
\<close>

theorem split_mode_boundaries:
  "(\<exists>first rest. py_split (str ''\<newline># '') content = first # rest \<and>
      report_document content =
        Inr (Heading (str ''Code Analysis Report'') 0 # Paragraph first #
             concat (map section_blocks (filter (\<lambda>s. py_strip s \<noteq> []) rest)))) \<and>
   py_join (str ''\<newline># '') (py_split (str ''\<newline># '') content) = content \<and>
   (\<not> sublist (str ''\<newline># '') content \<longrightarrow>
      report_document content = Inr [Heading (str ''Code Analysis Report'') 0, Paragraph content]) \<and>
   (\<exists>first rest. py_split (str ''\<newline># '') r = first # rest \<and>
      report_document (str ''# '' @ r) =
        Inr (Heading (str ''Code Analysis Report'') 0 # Paragraph (str ''# '' @ first) #
             concat (map section_blocks rest))) \<and>
   (py_strip s = [] \<longleftrightarrow> (\<forall>c\<in>set s. is_space c)) \<and>
   (py_strip s = [] \<longrightarrow> section_blocks s = [])"
proof (intro conjI)
  show "\<exists>first rest. py_split (str ''\<newline># '') content = first # rest \<and>
      report_document content =
        Inr (Heading (str ''Code Analysis Report'') 0 # Paragraph first #
             concat (map section_blocks (filter (\<lambda>s. py_strip s \<noteq> []) rest)))"
    using report_document_eq [of content] by (simp add: concat_section_blocks_filter)
next
  show "py_join (str ''\<newline># '') (py_split (str ''\<newline># '') content) = content"
    by (simp add: py_split_def py_join_split_from)
next
  show "\<not> sublist (str ''\<newline># '') content \<longrightarrow>
      report_document content = Inr [Heading (str ''Code Analysis Report'') 0, Paragraph content]"
    by (simp add: report_document_def py_split_def split_from_no_sep)
next
  obtain first rest where fr: "py_split (str ''\<newline># '') r = first # rest"
    using report_document_eq by blast
  have "py_split (str ''\<newline># '') (str ''# '' @ r) = split_from (str ''\<newline># '') (str ''# '') r"
    by (simp add: py_split_def str_def)
  also have "\<dots> = (str ''# '' @ first) # rest"
    using fr split_from_cur [of "str ''\<newline># ''" "str ''# ''" r] by (simp add: py_split_def)
  finally have "py_split (str ''\<newline># '') (str ''# '' @ r) = (str ''# '' @ first) # rest" .
  then have "report_document (str ''# '' @ r) =
        Inr (Heading (str ''Code Analysis Report'') 0 # Paragraph (str ''# '' @ first) #
             concat (map section_blocks rest))"
    by (simp add: report_document_def)
  with fr show "\<exists>first rest. py_split (str ''\<newline># '') r = first # rest \<and>
      report_document (str ''# '' @ r) =
        Inr (Heading (str ''Code Analysis Report'') 0 # Paragraph (str ''# '' @ first) #
             concat (map section_blocks rest))"
    by blast
next
  show "py_strip s = [] \<longleftrightarrow> (\<forall>c\<in>set s. is_space c)"
    by (rule py_strip_Nil_iff)
next
  show "py_strip s = [] \<longrightarrow> section_blocks s = []"
    by (simp add: section_blocks_blank)
qed

text \<open>
  C10 on concrete texts: the empty text gives an empty lead paragraph, a blank chunk
  gives nothing, and a leading heading marker stays in the lead paragraph.
\<close>

theorem split_mode_boundaries_witness:
  "\<not> sublist (str ''\<newline># '') [] \<and>
   report_document [] = Inr [Heading (str ''Code Analysis Report'') 0, Paragraph []] \<and>
   list_all is_space (str ''  '') \<and> py_strip (str ''  '') = [] \<and>
   section_blocks (str ''  '') = [] \<and>
   report_document (str ''# Title\<newline>lead\<newline>#   \<newline># \<newline># End'') =
     Inr [Heading (str ''Code Analysis Report'') 0, Paragraph (str ''# Title\<newline>lead''),
          Heading (str ''End'') 1]"
proof -
  note t = split_mode_boundaries [of "[]" "[]" "str ''  ''"]
  have h1: "\<not> sublist (str ''\<newline># '') []" by (simp add: str_def)
  have h2: "\<forall>c\<in>set (str ''  ''). is_space c" by (simp add: str_def is_space_def)
  note a = t [THEN conjunct2, THEN conjunct2, THEN conjunct1, rule_format, OF h1]
  have b: "py_strip (str ''  '') = []"
    using t [THEN conjunct2, THEN conjunct2, THEN conjunct2, THEN conjunct2, THEN conjunct1] h2
    by blast
  note c = t [THEN conjunct2, THEN conjunct2, THEN conjunct2, THEN conjunct2, THEN conjunct2,
      rule_format, OF b]
  have d: "report_document (str ''# Title\<newline>lead\<newline>#   \<newline># \<newline># End'') =
     Inr [Heading (str ''Code Analysis Report'') 0, Paragraph (str ''# Title\<newline>lead''),
          Heading (str ''End'') 1]"
    by (simp add: report_document_def py_split_def section_blocks_def py_split1_def
      py_strip_def is_space_def str_def)
  have h2': "list_all is_space (str ''  '')" using h2 by (simp only: list_all_iff)
  show ?thesis using h1 h2' a b c d by (intro conjI)
qed

subsection \<open>File names\<close>

lemma path_stem_not_Nil: "path_name f \<noteq> [] \<Longrightarrow> path_stem f \<noteq> []"
  by (auto simp: path_stem_def Let_def)

lemma path_stem_prefix: "prefix (path_stem f) (path_name f)"
  by (simp add: path_stem_def Let_def take_is_prefix)

text \<open>
  C6 as stated fails: the hints \<open>/\<close> and \<open>.\<close> are non-empty paths, their final
  component is empty, and so is the sanitized base.
\<close>

theorem report_file_name_counterexample:
  "str ''/'' \<noteq> [] \<and> sanitize_name ascii_alnum (path_stem (str ''/'')) = [] \<and>
   str ''.'' \<noteq> [] \<and> sanitize_name ascii_alnum (path_stem (str ''.'')) = [] \<and>
   docx_name ascii_alnum (str ''code_analysis_report'') (Some (str ''.'')) (str ''20240101_120000'') =
     str ''_analysis_20240101_120000.docx''"
  by (simp add: docx_name_def sanitize_name_def path_stem_def path_name_def path_parts_def
      py_split_def rfind_dot_def str_def)

text \<open>
  C6, amended: for a non-empty hint the file name is the sanitized stem of the hint
  followed by \<open>_analysis_\<close>, the timestamp and the extension; for an absent or empty hint
  it is the fallback base, an underscore, the timestamp and the extension.  The stem is
  a prefix of the final path component.  The sanitized base holds only alphanumeric
  characters, underscores and hyphens, and it is not empty when the hint has a
  non-empty final path component.
\<close>

theorem report_file_name:
  "(f \<noteq> [] \<longrightarrow>
      docx_name alnum filename_base (Some f) timestamp =
        sanitize_name alnum (path_stem f) @ str ''_analysis_'' @ timestamp @ str ''.docx'') \<and>
   docx_name alnum filename_base None timestamp =
     filename_base @ str ''_'' @ timestamp @ str ''.docx'' \<and>
   docx_name alnum filename_base (Some []) timestamp =
     filename_base @ str ''_'' @ timestamp @ str ''.docx'' \<and>
   prefix (path_stem f) (path_name f) \<and>
   (\<forall>c\<in>set (sanitize_name alnum base). alnum c \<or> c = 95 \<or> c = 45) \<and>
   (path_name f \<noteq> [] \<longrightarrow> sanitize_name alnum (path_stem f) \<noteq> [])"
  using path_stem_not_Nil [of f] path_stem_prefix [of f]
  by (auto simp: docx_name_def sanitize_name_def)

text \<open>
  The amended C6 on the hint \<open>/tmp/x/my app.v2.py\<close>.
\<close>

theorem report_file_name_witness:
  "str ''/tmp/x/my app.v2.py'' \<noteq> [] \<and> path_name (str ''/tmp/x/my app.v2.py'') \<noteq> [] \<and>
   sanitize_name ascii_alnum (path_stem (str ''/tmp/x/my app.v2.py'')) \<noteq> [] \<and>
   list_all (\<lambda>c. ascii_alnum c \<or> c = 95 \<or> c = 45)
     (sanitize_name ascii_alnum (str ''my app.v2'')) \<and>
   docx_name ascii_alnum (str ''code_analysis_report'') (Some (str ''/tmp/x/my app.v2.py''))
     (str ''20240101_120000'') = str ''my_app_v2_analysis_20240101_120000.docx''"
proof -
  let ?f = "str ''/tmp/x/my app.v2.py''"
  note t = report_file_name [of ?f ascii_alnum "str ''code_analysis_report''"
      "str ''20240101_120000''" "str ''my app.v2''"]
  have n: "path_name ?f = str ''my app.v2.py''"
    by (simp add: path_name_def path_parts_def py_split_def str_def)
  have h1: "?f \<noteq> []" by (simp add: str_def)
  have h2: "path_name ?f \<noteq> []" by (simp add: n) (simp add: str_def)
  have s: "sanitize_name ascii_alnum (path_stem ?f) = str ''my_app_v2''"
    by (simp add: path_stem_def n rfind_dot_def) (simp add: sanitize_name_def ascii_alnum_def str_def)
  have a: "docx_name ascii_alnum (str ''code_analysis_report'') (Some ?f) (str ''20240101_120000'')
      = str ''my_app_v2_analysis_20240101_120000.docx''"
    using t [THEN conjunct1, rule_format, OF h1] by (simp add: s) (simp add: str_def)
  note b = t [THEN conjunct2, THEN conjunct2, THEN conjunct2, THEN conjunct2, THEN conjunct1]
  note c = t [THEN conjunct2, THEN conjunct2, THEN conjunct2, THEN conjunct2, THEN conjunct2,
      rule_format, OF h2]
  have b': "list_all (\<lambda>c. ascii_alnum c \<or> c = 95 \<or> c = 45)
     (sanitize_name ascii_alnum (str ''my app.v2''))"
    using b by (simp only: list_all_iff)
  show ?thesis using h1 h2 a b' c by (intro conjI)
qed

section \<open>Properties of the task graph construction\<close>

subsection \<open>Agents\<close>

lemma update_fresh: "k \<notin> fst ` set al \<Longrightarrow> AList.update k v al = al @ [(k, v)]"
  by (induction al) auto

lemma build_agent_complete: "complete_agent c \<Longrightarrow> build_agent c = Inr (agent_of c)"
  by (auto simp: complete_agent_def build_agent_def agent_of_def subscript_def)

lemma build_agents_complete:
  assumes "distinct (map fst acs)" "fst ` set acs \<inter> fst ` set agents = {}"
    "\<forall>c\<in>snd ` set acs. complete_agent c"
  shows "build_agents acs agents = Inr (agents @ map (\<lambda>(n, c). (n, agent_of c)) acs)"
  using assms
proof (induction acs arbitrary: agents)
  case Nil
  show ?case by simp
next
  case (Cons p acs)
  obtain n c where p: "p = (n, c)" by (cases p)
  have fresh: "n \<notin> fst ` set agents" using Cons.prems(2) p by auto
  have c: "build_agent c = Inr (agent_of c)"
    using Cons.prems(3) p by (simp add: build_agent_complete)
  have d: "distinct (map fst acs)" using Cons.prems(1) by simp
  have i: "fst ` set acs \<inter> fst ` set (agents @ [(n, agent_of c)]) = {}"
    using Cons.prems(1,2) p by auto
  have a: "\<forall>c\<in>snd ` set acs. complete_agent c" using Cons.prems(3) by simp
  show ?case
    using Cons.IH [OF d i a] by (simp add: p c update_fresh [OF fresh])
qed

lemma map_of_agents:
  "map_of (map (\<lambda>(n, c). (n, agent_of c)) acs) a = map_option agent_of (map_of acs a)"
  by (induction acs) auto

subsection \<open>Tasks\<close>



lemma build_task_complete:
  assumes "complete_task t"
  shows "build_task agents outs t =
     (case map_of agents (the (tc_agent t)) of
        None \<Rightarrow> Inl (KeyError (the (tc_agent t)))
      | Some a \<Rightarrow> Inr (Task (the (tc_description t)) (the (tc_expected_output t)) a
                         (resolve_dependencies t outs) True))"
  using assms
  by (auto simp: complete_task_def build_task_def subscript_def new_task_def Let_def
      split: option.splits)

lemma task_fields:
  assumes "build_task agents outs t = Inr x"
  shows "tc_description t = Some (description x)"
    "tc_expected_output t = Some (expected_output x)"
    "\<exists>n. tc_agent t = Some n \<and> map_of agents n = Some (task_agent x)"
    "dependencies x = resolve_dependencies t outs" "task_verbose x"
  using assms
  by (auto simp: build_task_def subscript_def new_task_def Let_def split: option.splits)


lemma build_tasks_snoc:
  "build_tasks agents (tcs @ [(n, t)]) tasks outs =
     (case build_tasks agents tcs tasks outs of
        Inl e \<Rightarrow> Inl e
      | Inr (ts, os) \<Rightarrow>
          (case build_task agents os t of
             Inl e \<Rightarrow> Inl e
           | Inr x \<Rightarrow> Inr (ts @ [x], AList.update n x os)))"
  by (induction tcs arbitrary: tasks outs) (auto split: sum.splits)

lemma build_tasks_invariant:
  "build_tasks agents tcs [] [] = Inr (ts, os) \<Longrightarrow> distinct (map fst tcs) \<Longrightarrow>
     length ts = length tcs \<and> os = zip (map fst tcs) ts \<and>
     (\<forall>k<length tcs. build_task agents (take k os) (snd (tcs ! k)) = Inr (ts ! k))"
proof (induction tcs arbitrary: ts os rule: rev_induct)
  case Nil
  then show ?case by simp
next
  case (snoc p tcs)
  obtain n t where p: "p = (n, t)" by (cases p)
  from snoc.prems(1) obtain ts0 os0 x where
    b: "build_tasks agents tcs [] [] = Inr (ts0, os0)" and
    x: "build_task agents os0 t = Inr x" and
    ts: "ts = ts0 @ [x]" and os: "os = AList.update n x os0"
    unfolding p build_tasks_snoc by (auto split: sum.splits)
  have d: "distinct (map fst tcs)" and fresh: "n \<notin> fst ` set tcs"
    using snoc.prems(2) p by auto
  note ih = snoc.IH [OF b d]
  have len: "length ts0 = length tcs" using ih by simp
  have os0: "os0 = zip (map fst tcs) ts0" using ih by simp
  have "map fst os0 = map fst tcs"
    using len by (subst os0) simp
  then have "fst ` set os0 = fst ` set tcs"
    by (metis set_map)
  then have os': "os = os0 @ [(n, x)]"
    using fresh os by (simp add: update_fresh)
  have 1: "length ts = length (tcs @ [p])" using ts len by simp
  have 2: "os = zip (map fst (tcs @ [p])) ts"
    using os' os0 ts len p by simp
  have 3: "build_task agents (take k os) (snd ((tcs @ [p]) ! k)) = Inr (ts ! k)"
    if k: "k < length (tcs @ [p])" for k
  proof (cases "k < length tcs")
    case True
    have lo: "length os0 = length tcs" using os0 len by simp
    have e1: "take k os = take k os0" using True os' lo by simp
    have e2: "(tcs @ [p]) ! k = tcs ! k" using True by (simp add: nth_append)
    have e3: "ts ! k = ts0 ! k" using True ts len by (simp add: nth_append)
    have "build_task agents (take k os0) (snd (tcs ! k)) = Inr (ts0 ! k)"
      using ih True by blast
    then show ?thesis unfolding e1 e2 e3 .
  next
    case False
    then have kk: "k = length tcs" using k by simp
    have lo: "length os0 = length tcs" using os0 len by simp
    have e1: "take k os = os0" using kk os' lo by simp
    have e2: "(tcs @ [p]) ! k = p" using kk by simp
    have e3: "ts ! k = x" using kk ts len by (simp add: nth_append)
    show ?thesis unfolding e1 e2 e3 using x p by simp
  qed
  show ?case using 1 2 3 by blast
qed

lemma build_tasks_succeeds:
  assumes "\<forall>t\<in>snd ` set tcs. complete_task t \<and> map_of agents (the (tc_agent t)) \<noteq> None"
  shows "\<exists>ts os. build_tasks agents tcs tasks outs = Inr (ts, os)"
  using assms
proof (induction tcs arbitrary: tasks outs)
  case Nil
  show ?case by simp
next
  case (Cons p tcs)
  obtain n t where p: "p = (n, t)" by (cases p)
  have "complete_task t" "map_of agents (the (tc_agent t)) \<noteq> None"
    using Cons.prems p by auto
  then obtain x where x: "build_task agents outs t = Inr x"
    by (auto simp: build_task_complete)
  have "\<forall>t\<in>snd ` set tcs. complete_task t \<and> map_of agents (the (tc_agent t)) \<noteq> None"
    using Cons.prems by simp
  from Cons.IH [OF this] show ?case by (simp add: p x)
qed

lemma build_tasks_fails:
  assumes "\<forall>t\<in>snd ` set tcs. complete_task t"
    "find (\<lambda>p. map_of agents (the (tc_agent (snd p))) = None) tcs = Some (n, t)"
  shows "build_tasks agents tcs tasks outs = Inl (KeyError (the (tc_agent t)))"
  using assms
proof (induction tcs arbitrary: tasks outs)
  case Nil
  then show ?case by simp
next
  case (Cons p tcs)
  obtain m u where p: "p = (m, u)" by (cases p)
  have cu: "complete_task u" using Cons.prems(1) p by simp
  show ?case
  proof (cases "map_of agents (the (tc_agent u)) = None")
    case True
    then have "(n, t) = (m, u)" using Cons.prems(2) p by simp
    then show ?thesis using True cu by (simp add: p build_task_complete)
  next
    case False
    then obtain x where x: "build_task agents outs u = Inr x"
      using cu by (auto simp: build_task_complete)
    have f: "find (\<lambda>p. map_of agents (the (tc_agent (snd p))) = None) tcs = Some (n, t)"
      using Cons.prems(2) False p by simp
    have c: "\<forall>t\<in>snd ` set tcs. complete_task t" using Cons.prems(1) by simp
    show ?thesis using Cons.IH [OF c f] by (simp add: p x)
  qed
qed


subsection \<open>The whole build\<close>

lemma crew_agents_ok:
  assumes "well_formed acs tcs"
  shows "build_agents acs [] = Inr (map (\<lambda>(n, c). (n, agent_of c)) acs)"
  using assms build_agents_complete [of acs "[]"] by (simp add: well_formed_def)

lemma resolves_iff:
  assumes "well_formed acs tcs" "t \<in> snd ` set tcs"
  shows "resolves acs t \<longleftrightarrow> map_of (map (\<lambda>(n, c). (n, agent_of c)) acs) (the (tc_agent t)) \<noteq> None"
proof -
  have "complete_task t" using assms by (auto simp: well_formed_def)
  then obtain a where a: "tc_agent t = Some a" by (auto simp: complete_task_def)
  show ?thesis
    by (simp add: resolves_def a map_of_agents map_of_eq_None_iff)
qed

lemma crew_result:
  assumes "crew acs tcs = Inr (c, outs)" "distinct (map fst tcs)"
  shows "\<exists>agents. build_agents acs [] = Inr agents \<and> crew_agents c = map snd agents \<and>
           length (crew_tasks c) = length tcs \<and> outs = zip (map fst tcs) (crew_tasks c) \<and>
           (\<forall>k<length tcs.
              build_task agents (take k outs) (snd (tcs ! k)) = Inr (crew_tasks c ! k))"
proof -
  from assms(1) obtain agents ts where a: "build_agents acs [] = Inr agents"
    and b: "build_tasks agents tcs [] [] = Inr (ts, outs)"
    and n: "new_crew (map snd agents) ts True = Inr c"
    by (auto simp: crew_def split: sum.splits)
  from n have c: "crew_agents c = map snd agents" "crew_tasks c = ts"
    by (auto simp: new_crew_def split: if_splits)
  note inv = build_tasks_invariant [OF b assms(2)]
  show ?thesis using a c inv by auto
qed

lemma crew_succeeds:
  assumes wf: "well_formed acs tcs" and res: "all_resolve acs tcs"
  shows "\<exists>c outs. crew acs tcs = Inr (c, outs)"
proof -
  let ?agents = "map (\<lambda>(n, c). (n, agent_of c)) acs"
  have "\<forall>t\<in>snd ` set tcs. complete_task t \<and> map_of ?agents (the (tc_agent t)) \<noteq> None"
    using wf res resolves_iff [OF wf] by (auto simp: well_formed_def all_resolve_def)
  then obtain ts os where b: "build_tasks ?agents tcs [] [] = Inr (ts, os)"
    using build_tasks_succeeds by blast
  have d: "distinct (map fst tcs)" using wf by (simp add: well_formed_def)
  have len: "length ts = length tcs" using build_tasks_invariant [OF b d] by simp
  have "acs \<noteq> [] \<or> tcs \<noteq> []" using wf by (simp add: well_formed_def)
  then have "\<not> (map snd ?agents = [] \<and> ts = [])" using len by auto
  then obtain c where "new_crew (map snd ?agents) ts True = Inr c"
    by (auto simp: new_crew_def)
  then have "crew acs tcs = Inr (c, os)"
    using b by (simp add: crew_def crew_agents_ok [OF wf])
  then show ?thesis by blast
qed










text \<open>
  C2 as stated fails: in the empty configuration every agent name resolves, and so it
  does for the single task without expected output, yet the constructors refuse both and
  no plan is returned.
\<close>

theorem plan_order_counterexample:
  "all_resolve [] [] \<and> crew [] [] = Inl ValidationError \<and>
   all_resolve demo_agents_config bare_tasks_config \<and>
   crew demo_agents_config bare_tasks_config = Inl ValidationError"
  by (simp add: all_resolve_def resolves_def crew_def new_crew_def build_agent_def
      build_task_def subscript_def new_task_def resolve_dependencies_def
      demo_agents_config_def bare_tasks_config_def str_def)

text \<open>
  C2, amended: every plan the build returns has as many tasks as there are task
  definitions, and its \<open>i\<close>-th task is the one built from the \<open>i\<close>-th definition: it is
  stored under that definition's name and carries its description and expected output.
  A plan is returned for every well-formed configuration (not empty, every task with an
  expected output) whose agent names all resolve.
\<close>

theorem plan_order:
  "(distinct (map fst tcs) \<and> crew acs tcs = Inr (c, outs) \<longrightarrow>
      length (crew_tasks c) = length tcs \<and> outs = zip (map fst tcs) (crew_tasks c) \<and>
      (\<forall>i<length tcs.
         tc_description (snd (tcs ! i)) = Some (description (crew_tasks c ! i)) \<and>
         tc_expected_output (snd (tcs ! i)) = Some (expected_output (crew_tasks c ! i)))) \<and>
   (well_formed acs tcs \<and> all_resolve acs tcs \<longrightarrow> (\<exists>c outs. crew acs tcs = Inr (c, outs)))"
proof (intro conjI impI)
  assume a: "distinct (map fst tcs) \<and> crew acs tcs = Inr (c, outs)"
  then obtain agents where len: "length (crew_tasks c) = length tcs"
    and outs: "outs = zip (map fst tcs) (crew_tasks c)"
    and b: "\<forall>k<length tcs. build_task agents (take k outs) (snd (tcs ! k)) = Inr (crew_tasks c ! k)"
    using crew_result [of acs tcs c outs] by blast
  show "length (crew_tasks c) = length tcs" by (rule len)
  show "outs = zip (map fst tcs) (crew_tasks c)" by (rule outs)
  show "\<forall>i<length tcs.
         tc_description (snd (tcs ! i)) = Some (description (crew_tasks c ! i)) \<and>
         tc_expected_output (snd (tcs ! i)) = Some (expected_output (crew_tasks c ! i))"
  proof (intro allI impI)
    fix i assume "i < length tcs"
    then have "build_task agents (take i outs) (snd (tcs ! i)) = Inr (crew_tasks c ! i)"
      using b by blast
    from task_fields(1,2) [OF this] show
      "tc_description (snd (tcs ! i)) = Some (description (crew_tasks c ! i)) \<and>
       tc_expected_output (snd (tcs ! i)) = Some (expected_output (crew_tasks c ! i))"
      by simp
  qed
next
  assume "well_formed acs tcs \<and> all_resolve acs tcs"
  then show "\<exists>c outs. crew acs tcs = Inr (c, outs)"
    using crew_succeeds by blast
qed

text \<open>
  C7 as stated fails: the empty configuration names no missing agent and the build
  fails all the same; and where \<open>A\<close> has no expected output and \<open>B\<close> names a missing agent,
  the build fails at \<open>A\<close> with ValidationError, not with the error of the agent lookup.
\<close>

theorem agent_resolution_counterexample:
  "all_resolve [] [] \<and> crew [] [] = Inl ValidationError \<and>
   \<not> all_resolve demo_agents_config mixed_tasks_config \<and>
   crew demo_agents_config mixed_tasks_config = Inl ValidationError"
  by (simp add: all_resolve_def resolves_def crew_def new_crew_def build_agent_def
      build_task_def subscript_def new_task_def resolve_dependencies_def
      demo_agents_config_def mixed_tasks_config_def demo_task_def str_def)

text \<open>
  C7, amended: on a well-formed configuration (not empty, every task with an expected
  output), when every task names an agent of the agent configuration the build succeeds
  and each task is bound to the agent built from the entry it names; otherwise the build
  fails with the KeyError raised by the lookup \<open>agents[task_config['agent']]\<close> of the
  first task whose agent is missing, which carries the missing agent name.
\<close>

theorem agent_resolution:
  assumes "well_formed acs tcs"
  shows "if all_resolve acs tcs
         then \<exists>c outs. crew acs tcs = Inr (c, outs) \<and>
                length (crew_tasks c) = length tcs \<and>
                (\<forall>i<length tcs. \<exists>a ac.
                   tc_agent (snd (tcs ! i)) = Some a \<and> map_of acs a = Some ac \<and>
                   task_agent (crew_tasks c ! i) = agent_of ac)
         else \<exists>n t a. find (\<lambda>p. \<not> resolves acs (snd p)) tcs = Some (n, t) \<and>
                tc_agent t = Some a \<and> a \<notin> fst ` set acs \<and>
                crew acs tcs = Inl (KeyError a)"
proof (cases "all_resolve acs tcs")
  case True
  let ?agents = "map (\<lambda>(n, c). (n, agent_of c)) acs"
  obtain c outs where c: "crew acs tcs = Inr (c, outs)"
    using crew_succeeds [OF assms True] by blast
  have d: "distinct (map fst tcs)" using assms by (simp add: well_formed_def)
  obtain agents where a: "build_agents acs [] = Inr agents"
    and len: "length (crew_tasks c) = length tcs"
    and b: "\<forall>k<length tcs. build_task agents (take k outs) (snd (tcs ! k)) = Inr (crew_tasks c ! k)"
    using crew_result [OF c d] by blast
  have ag: "agents = ?agents" using a crew_agents_ok [OF assms] by simp
  have f: "\<exists>a ac. tc_agent (snd (tcs ! i)) = Some a \<and> map_of acs a = Some ac \<and>
      task_agent (crew_tasks c ! i) = agent_of ac" if i: "i < length tcs" for i
  proof -
    have "build_task ?agents (take i outs) (snd (tcs ! i)) = Inr (crew_tasks c ! i)"
      using b i ag by blast
    from task_fields(3) [OF this] obtain n where n: "tc_agent (snd (tcs ! i)) = Some n"
      and m: "map_of ?agents n = Some (task_agent (crew_tasks c ! i))" by blast
    from m show ?thesis using n by (auto simp: map_of_agents)
  qed
  have "\<exists>c outs. crew acs tcs = Inr (c, outs) \<and>
                length (crew_tasks c) = length tcs \<and>
                (\<forall>i<length tcs. \<exists>a ac.
                   tc_agent (snd (tcs ! i)) = Some a \<and> map_of acs a = Some ac \<and>
                   task_agent (crew_tasks c ! i) = agent_of ac)"
    using c len f by (intro exI conjI) (assumption, simp_all)
  then show ?thesis using True by simp
next
  case False
  let ?agents = "map (\<lambda>(n, c). (n, agent_of c)) acs"
  have ct: "\<forall>t\<in>snd ` set tcs. complete_task t" using assms by (simp add: well_formed_def)
  have eq: "(\<lambda>p. \<not> resolves acs (snd p)) x = (\<lambda>p. map_of ?agents (the (tc_agent (snd p))) = None) x"
    if "x \<in> set tcs" for x
    using resolves_iff [OF assms, of "snd x"] that by auto
  have feq: "find (\<lambda>p. \<not> resolves acs (snd p)) tcs =
      find (\<lambda>p. map_of ?agents (the (tc_agent (snd p))) = None) tcs"
    using eq by (intro find_cong) auto
  from False obtain x where x: "x \<in> set tcs" "\<not> resolves acs (snd x)"
    by (auto simp: all_resolve_def)
  then have "find (\<lambda>p. \<not> resolves acs (snd p)) tcs \<noteq> None"
    unfolding find_None_iff by blast
  then obtain n t where nt: "find (\<lambda>p. \<not> resolves acs (snd p)) tcs = Some (n, t)"
    by (cases "find (\<lambda>p. \<not> resolves acs (snd p)) tcs") auto
  then obtain i where i: "i < length tcs" "\<not> resolves acs (snd (tcs ! i))" "(n, t) = tcs ! i"
    unfolding find_Some_iff by blast
  have mem: "(n, t) \<in> set tcs" using i(1,3) by (metis nth_mem)
  have nr: "\<not> resolves acs t" using i(2,3) by (metis snd_conv)
  have "complete_task t" using ct mem by force
  then obtain a where a: "tc_agent t = Some a" by (auto simp: complete_task_def)
  have na: "a \<notin> fst ` set acs" using nr a by (simp add: resolves_def)
  have "build_tasks ?agents tcs [] [] = Inl (KeyError (the (tc_agent t)))"
    using build_tasks_fails [OF ct] nt feq by simp
  then have "crew acs tcs = Inl (KeyError a)"
    using a by (simp add: crew_def crew_agents_ok [OF assms])
  then show ?thesis using False nt a na by auto
qed

lemmas demo_defs = demo_agents_config_def demo_tasks_config_def broken_tasks_config_def
  demo_task_def str_def

lemma demo_well_formed: "well_formed demo_agents_config demo_tasks_config"
  by (simp add: well_formed_def complete_agent_def complete_task_def demo_defs)

lemma demo_resolves: "all_resolve demo_agents_config demo_tasks_config"
  by (simp add: all_resolve_def resolves_def demo_defs)

lemma demo_distinct: "distinct (map fst demo_tasks_config)"
  using demo_well_formed by (simp add: well_formed_def)

lemma broken_well_formed: "well_formed demo_agents_config broken_tasks_config"
  by (simp add: well_formed_def complete_agent_def complete_task_def demo_defs)

lemma broken_not_resolves: "\<not> all_resolve demo_agents_config broken_tasks_config"
  by (simp add: all_resolve_def resolves_def demo_defs)



text \<open>
  The amended C2 on the three-task configuration.
\<close>

theorem plan_order_witness:
  "well_formed demo_agents_config demo_tasks_config \<and>
   all_resolve demo_agents_config demo_tasks_config \<and>
   distinct (map fst demo_tasks_config) \<and>
   (\<exists>c outs. crew demo_agents_config demo_tasks_config = Inr (c, outs) \<and>
      length (crew_tasks c) = 3 \<and>
      map fst outs = [str ''A'', str ''B'', str ''C''] \<and>
      description (crew_tasks c ! 0) = str ''a'' \<and>
      description (crew_tasks c ! 1) = str ''b'' \<and>
      description (crew_tasks c ! 2) = str ''c'' \<and>
      expected_output (crew_tasks c ! 2) = str ''text'')"
proof -
  note t0 = plan_order [of demo_tasks_config demo_agents_config]
  obtain c outs where c: "crew demo_agents_config demo_tasks_config = Inr (c, outs)"
    using t0 [THEN conjunct2, rule_format, OF conjI [OF demo_well_formed demo_resolves]]
    by blast
  note t = plan_order [of demo_tasks_config demo_agents_config c outs,
      THEN conjunct1, rule_format, OF conjI [OF demo_distinct c]]
  note len = t [THEN conjunct1]
  note outs = t [THEN conjunct2, THEN conjunct1]
  note f = t [THEN conjunct2, THEN conjunct2]
  have l3: "length (crew_tasks c) = 3" using len by (simp add: demo_defs)
  have "map fst outs = map fst demo_tasks_config"
    by (subst outs) (simp add: len)
  then have names: "map fst outs = [str ''A'', str ''B'', str ''C'']"
    by (simp add: demo_defs)
  have d0: "description (crew_tasks c ! 0) = str ''a''"
    using f [rule_format, of 0] by (simp add: demo_defs)
  have d1: "description (crew_tasks c ! 1) = str ''b''"
    using f [rule_format, of 1] by (simp add: demo_defs)
  have d2: "description (crew_tasks c ! 2) = str ''c''"
    using f [rule_format, of 2] by (simp add: demo_defs)
  have e2: "expected_output (crew_tasks c ! 2) = str ''text''"
    using f [rule_format, of 2] by (simp add: demo_defs)
  have "\<exists>c outs. crew demo_agents_config demo_tasks_config = Inr (c, outs) \<and>
      length (crew_tasks c) = 3 \<and>
      map fst outs = [str ''A'', str ''B'', str ''C''] \<and>
      description (crew_tasks c ! 0) = str ''a'' \<and>
      description (crew_tasks c ! 1) = str ''b'' \<and>
      description (crew_tasks c ! 2) = str ''c'' \<and>
      expected_output (crew_tasks c ! 2) = str ''text''"
    by (rule exI [of _ c], rule exI [of _ outs]) (simp only: c l3 names d0 d1 d2 e2 simp_thms)
  with demo_well_formed demo_resolves demo_distinct show ?thesis by (intro conjI)
qed

text \<open>
  The amended C7 on two configurations: one that resolves, one whose second task names
  a missing agent.
\<close>

theorem agent_resolution_witness:
  "well_formed demo_agents_config demo_tasks_config \<and>
   all_resolve demo_agents_config demo_tasks_config \<and>
   (\<exists>c outs. crew demo_agents_config demo_tasks_config = Inr (c, outs) \<and>
      length (crew_tasks c) = 3 \<and>
      task_agent (crew_tasks c ! 1) = Agent (str ''r'') (str ''g'') (str ''s'') True) \<and>
   well_formed demo_agents_config broken_tasks_config \<and>
   \<not> all_resolve demo_agents_config broken_tasks_config \<and>
   crew demo_agents_config broken_tasks_config = Inl (KeyError (str ''nobody''))"
proof -
  have "\<exists>c outs. crew demo_agents_config demo_tasks_config = Inr (c, outs) \<and>
      length (crew_tasks c) = length demo_tasks_config \<and>
      (\<forall>i<length demo_tasks_config. \<exists>a ac.
         tc_agent (snd (demo_tasks_config ! i)) = Some a \<and>
         map_of demo_agents_config a = Some ac \<and>
         task_agent (crew_tasks c ! i) = agent_of ac)"
    using agent_resolution [OF demo_well_formed] demo_resolves by simp
  then obtain c outs where c: "crew demo_agents_config demo_tasks_config = Inr (c, outs)"
    and len: "length (crew_tasks c) = length demo_tasks_config"
    and f: "\<forall>i<length demo_tasks_config. \<exists>a ac.
         tc_agent (snd (demo_tasks_config ! i)) = Some a \<and>
         map_of demo_agents_config a = Some ac \<and>
         task_agent (crew_tasks c ! i) = agent_of ac"
    by blast
  have l3: "length (crew_tasks c) = 3" using len by (simp add: demo_defs)
  have "(1::nat) < length demo_tasks_config" by (simp add: demo_defs)
  from f [rule_format, OF this] obtain a ac where
    a: "tc_agent (snd (demo_tasks_config ! 1)) = Some a"
    and ac: "map_of demo_agents_config a = Some ac"
    and ta: "task_agent (crew_tasks c ! 1) = agent_of ac"
    by blast
  have "a = str ''analyst''" using a by (simp add: demo_defs)
  then have "ac = \<lparr>ac_role = Some (str ''r''), ac_goal = Some (str ''g''),
      ac_backstory = Some (str ''s'')\<rparr>"
    using ac by (simp add: demo_defs)
  then have ag: "task_agent (crew_tasks c ! 1) = Agent (str ''r'') (str ''g'') (str ''s'') True"
    using ta by (simp add: agent_of_def)
  have "\<exists>n t a. find (\<lambda>p. \<not> resolves demo_agents_config (snd p)) broken_tasks_config = Some (n, t) \<and>
      tc_agent t = Some a \<and> a \<notin> fst ` set demo_agents_config \<and>
      crew demo_agents_config broken_tasks_config = Inl (KeyError a)"
    using agent_resolution [OF broken_well_formed] broken_not_resolves by (simp only: if_False)
  then obtain n t a' where
    fd: "find (\<lambda>p. \<not> resolves demo_agents_config (snd p)) broken_tasks_config = Some (n, t)"
    and a': "tc_agent t = Some a'"
    and e: "crew demo_agents_config broken_tasks_config = Inl (KeyError a')"
    by blast
  have "find (\<lambda>p. \<not> resolves demo_agents_config (snd p)) broken_tasks_config =
      Some (str ''B'', demo_task ''b'' ''nobody'' (Some [str ''C'', str ''A'']))"
    by (simp add: resolves_def demo_defs)
  then have "t = demo_task ''b'' ''nobody'' (Some [str ''C'', str ''A''])" using fd by simp
  then have "a' = str ''nobody''" using a' by (simp add: demo_task_def)
  then have err: "crew demo_agents_config broken_tasks_config = Inl (KeyError (str ''nobody''))"
    using e by simp
  have "\<exists>c outs. crew demo_agents_config demo_tasks_config = Inr (c, outs) \<and>
      length (crew_tasks c) = 3 \<and>
      task_agent (crew_tasks c ! 1) = Agent (str ''r'') (str ''g'') (str ''s'') True"
    by (rule exI [of _ c], rule exI [of _ outs]) (simp only: c l3 ag simp_thms)
  with demo_well_formed demo_resolves broken_well_formed broken_not_resolves err
  show ?thesis by (intro conjI)
qed

end
